theory Spec2Isabelle
  imports Main "HOL-Library.Sublist"
begin

section \<open>Strings\<close>

text \<open>
  A JavaScript string is modelled as a \<^typ>\<open>string\<close>: a list of code units, here the
  code units below 256. Inside that range the white space of \<open>String.prototype.trim\<close> and
  of the regular expression class \<open>\s\<close> is tab, line feed, vertical tab, form feed,
  carriage return, space and the no-break space.
\<close>

definition isSpace :: "char \<Rightarrow> bool" where
  "isSpace c = (c \<in> set [CHR 0x09, CHR 0x0A, CHR 0x0B, CHR 0x0C, CHR 0x0D, CHR 0x20, CHR 0xA0])"

definition trim :: "string \<Rightarrow> string" where
  "trim s = rev (dropWhile isSpace (rev (dropWhile isSpace s)))"

text \<open>
  Case mapping is modelled on the letters \<open>a\<close> to \<open>z\<close>; every other code unit is left
  as it is. (JavaScript also changes letters outside ASCII. Below 256 none of those changes
  yields a slash or one of the letters of \<open>SEND\<close> next to a slash, so whether the
  upper-case text ends with \<open>//SEND\<close>, which is all the program asks of it, is not
  affected; and under the flag \<open>i\<close> a literal ASCII letter matches its two ASCII cases
  only.)
\<close>

definition toUpperChar :: "char \<Rightarrow> char" where
  "toUpperChar c =
     (case map_of (zip ''abcdefghijklmnopqrstuvwxyz'' ''ABCDEFGHIJKLMNOPQRSTUVWXYZ'') c of
        Some u \<Rightarrow> u
      | None \<Rightarrow> c)"

definition toUpperCase :: "string \<Rightarrow> string" where
  "toUpperCase s = map toUpperChar s"

definition startsWith :: "string \<Rightarrow> string \<Rightarrow> bool" where
  "startsWith s t = (take (length t) s = t)"

definition endsWith :: "string \<Rightarrow> string \<Rightarrow> bool" where
  "endsWith s t = (length t \<le> length s \<and> drop (length s - length t) s = t)"

fun includes_str :: "string \<Rightarrow> string \<Rightarrow> bool" where
  "includes_str [] t = (t = [])"
| "includes_str (c # cs) t = (startsWith (c # cs) t \<or> includes_str cs t)"

text \<open>
  \<open>s.split(sep)\<close> for a separator string: the pieces between the occurrences of \<open>sep\<close>,
  found from left to right without overlap. An empty separator splits into code units.
\<close>

function split :: "string \<Rightarrow> string \<Rightarrow> string list" where
  "split sep [] = (if sep = [] then [] else [[]])"
| "split sep (c # cs) =
     (if sep = [] then map (\<lambda>x. [x]) (c # cs)
      else if startsWith (c # cs) sep then [] # split sep (drop (length sep) (c # cs))
      else (case split sep cs of
              [] \<Rightarrow> [[c]]
            | p # ps \<Rightarrow> (c # p) # ps))"
  by pat_completeness auto
termination
  by (relation "measure (\<lambda>(sep, s). length s)") auto

fun join :: "string list \<Rightarrow> string \<Rightarrow> string" where
  "join [] sep = []"
| "join [x] sep = x"
| "join (x # y # ys) sep = x @ sep @ join (y # ys) sep"

section \<open>Regular expressions\<close>

text \<open>
  The three regular expressions of the program are built from literals, \<open>\s*\<close>, an
  optional literal, one lazy capture group \<open>([\s\S]*?)\<close> and the end anchor \<open>$\<close>. All
  carry the flag \<open>i\<close>. \<open>matchHere\<close> is the backtracking matcher at one start position,
  trying the alternatives in the order the engine tries them; it returns the text of the
  capture group and the input left after the match. \<open>search\<close> tries the start positions
  from left to right and also returns the input before the match.
\<close>

datatype atom = Lit char | Spaces | Opt char | Group | End

definition sameChar :: "char \<Rightarrow> char \<Rightarrow> bool" where
  "sameChar x c = (toUpperChar x = toUpperChar c)"

fun matchHere :: "atom list \<Rightarrow> string \<Rightarrow> (string \<times> string) option" where
  "matchHere [] s = Some ([], s)"
| "matchHere (Lit c # r) [] = None"
| "matchHere (Lit c # r) (x # xs) = (if sameChar x c then matchHere r xs else None)"
| "matchHere (Spaces # r) [] = matchHere r []"
| "matchHere (Spaces # r) (x # xs) =
     (if isSpace x then
        (case matchHere (Spaces # r) xs of
           Some m \<Rightarrow> Some m
         | None \<Rightarrow> matchHere r (x # xs))
      else matchHere r (x # xs))"
| "matchHere (Opt c # r) [] = matchHere r []"
| "matchHere (Opt c # r) (x # xs) =
     (if sameChar x c then
        (case matchHere r xs of
           Some m \<Rightarrow> Some m
         | None \<Rightarrow> matchHere r (x # xs))
      else matchHere r (x # xs))"
| "matchHere (Group # r) [] =
     (case matchHere r [] of
        Some (g, rest) \<Rightarrow> Some ([], rest)
      | None \<Rightarrow> None)"
| "matchHere (Group # r) (x # xs) =
     (case matchHere r (x # xs) of
        Some (g, rest) \<Rightarrow> Some ([], rest)
      | None \<Rightarrow>
          (case matchHere (Group # r) xs of
             Some (g, rest) \<Rightarrow> Some (x # g, rest)
           | None \<Rightarrow> None))"
| "matchHere (End # r) s = (if s = [] then matchHere r s else None)"

fun search :: "atom list \<Rightarrow> string \<Rightarrow> string \<Rightarrow> (string \<times> string \<times> string) option" where
  "search re pre [] =
     (case matchHere re [] of
        Some (g, rest) \<Rightarrow> Some (pre, g, rest)
      | None \<Rightarrow> None)"
| "search re pre (x # xs) =
     (case matchHere re (x # xs) of
        Some (g, rest) \<Rightarrow> Some (pre, g, rest)
      | None \<Rightarrow> search re (pre @ [x]) xs)"

definition test :: "atom list \<Rightarrow> string \<Rightarrow> bool" where
  "test re s = (search re [] s \<noteq> None)"

text \<open>\<open>s.replace(re, "")\<close> without the flag \<open>g\<close>: the first match is cut out.\<close>

definition replaceEmpty :: "atom list \<Rightarrow> string \<Rightarrow> string" where
  "replaceEmpty re s =
     (case search re [] s of
        None \<Rightarrow> s
      | Some (pre, g, rest) \<Rightarrow> pre @ rest)"

text \<open>\<open>s.match(re)\<close> read at index 1: the capture group of the first match, if any.\<close>

definition matchGroup :: "atom list \<Rightarrow> string \<Rightarrow> string option" where
  "matchGroup re s =
     (case search re [] s of
        None \<Rightarrow> None
      | Some (pre, g, rest) \<Rightarrow> Some g)"

definition lits :: "string \<Rightarrow> atom list" where
  "lits s = map Lit s"

text \<open>\<^verbatim>\<open>/\/\/SEND$/i\<close> (src/index.ts)\<close>

definition reSendEnd :: "atom list" where
  "reSendEnd = lits ''//SEND'' @ [End]"

text \<open>\<^verbatim>\<open>/\/\/SEND\s*```?\s*$/i\<close> (the Markdown revision)\<close>

definition reSendFence :: "atom list" where
  "reSendFence = lits ''//SEND'' @ [Spaces, Lit CHR ''`'', Lit CHR ''`'', Opt CHR ''`'', Spaces, End]"

text \<open>\<^verbatim>\<open>/```\s*([\s\S]*?)\/\/SEND\s*```/i\<close> (the Markdown revision)\<close>

definition reCodeBlock :: "atom list" where
  "reCodeBlock = lits ''```'' @ [Spaces, Group] @ lits ''//SEND'' @ [Spaces] @ lits ''```''"

text \<open>What the second of them can match after the marker: white space and backticks.\<close>

definition fenceTail :: "string \<Rightarrow> bool" where
  "fenceTail s = (\<forall>c \<in> set s. isSpace c \<or> c = CHR ''`'')"

section \<open>The Wait Engine\<close>

text \<open>
  The repository holds two revisions of the program. They differ in the file they write
  and in how a saved file is recognised as a submission: src/index.ts writes a plain text
  file and looks for \<open>//SEND\<close> at the end of the saved text; the other revision writes
  Markdown with a fenced code block as the editable region and uses regular expressions.
  Everything else is shared, so the revision is a parameter of the model.
\<close>

datatype revision = PlainText | Markdown

abbreviation nl :: string where
  "nl \<equiv> [CHR 0x0A]"

definition separator :: string where
  "separator = ''--- Type your message below (end with //SEND to submit) ---''"

definition instructions :: string where
  "instructions =
     ''## Your Message'' @ nl @ nl @
     ''Type your message below. End with `//SEND` to submit.'' @ nl @ nl @
     ''```'' @ nl @ nl @ ''//SEND'' @ nl @ ''```''"

fun historyText :: "revision \<Rightarrow> string list \<Rightarrow> string" where
  "historyText PlainText h =
     (if length h > 0 then join h nl @ nl @ nl @ separator @ nl @ nl
      else separator @ nl @ nl)"
| "historyText Markdown h =
     (if length h > 0
      then ''## Conversation History'' @ nl @ nl @ join h (nl @ nl) @ nl @ nl @ ''---'' @ nl @ nl
      else []) @ instructions"

fun hasSendMarker :: "revision \<Rightarrow> string \<Rightarrow> bool" where
  "hasSendMarker PlainText trimmed = endsWith (toUpperCase trimmed) ''//SEND''"
| "hasSendMarker Markdown trimmed = test reSendFence trimmed"

fun userMessage :: "revision \<Rightarrow> string \<Rightarrow> string" where
  "userMessage PlainText trimmed =
     (let m = (if includes_str trimmed separator
               then (case split separator trimmed of
                       [] \<Rightarrow> []
                     | p # ps \<Rightarrow> trim (last (p # ps)))
               else trimmed)
      in trim (replaceEmpty reSendEnd m))"
| "userMessage Markdown trimmed =
     (case matchGroup reCodeBlock trimmed of
        Some g \<Rightarrow> trim g
      | None \<Rightarrow> trim (replaceEmpty reSendFence trimmed))"

text \<open>
  JavaScript values, as far as the program meets them: what \<open>JSON.parse\<close> returns, the
  object literals the program builds, and \<open>undefined\<close> for a property that is not there.
  A number is kept as the text \<open>String\<close> gives for it. An object lists each key once.
\<close>

datatype jsval =
    Undefined
  | Null
  | Bool bool
  | Num string
  | Str string
  | Arr "jsval list"
  | Obj "(string \<times> jsval) list"

text \<open>
  The state of the server object and of the wait in progress: the history, the text last
  written to the input file, the watcher of the current wait (whether it is open and how
  often \<open>close\<close> was called on it), the value its promise was resolved with, and the
  number of callbacks of that watcher that have started and are suspended in their read
  of the file.
\<close>

record state =
  initialized :: bool
  history :: "string list"
  fileBody :: string
  watching :: bool
  closeCalls :: nat
  promise :: "jsval option"
  inFlight :: nat

text \<open>The server object as its constructor leaves it, before any wait.\<close>

definition newServer :: state where
  "newServer =
     \<lparr>initialized = False, history = [], fileBody = [], watching = False, closeCalls = 0,
      promise = None, inFlight = 0\<rparr>"

definition init :: "state \<Rightarrow> state" where
  "init s = (if initialized s then s else s\<lparr>initialized := True\<rparr>)"

text \<open>
  The callback given to \<open>watch\<close> is asynchronous. For a \<open>rename\<close> notification it
  returns at once. For a \<open>change\<close> notification it suspends in \<open>readFile\<close>, and
  the rest of it runs, without another suspension, when the read completes. An
  \<open>fsevent\<close> is the event name and, for \<open>change\<close>, what that read gives
  (\<open>None\<close> when it throws; the callback logs that and returns).
\<close>

datatype fsevent = Rename | Change "string option"

definition resolve :: "jsval \<Rightarrow> state \<Rightarrow> state" where
  "resolve v s = (case promise s of None \<Rightarrow> s\<lparr>promise := Some v\<rparr> | Some u \<Rightarrow> s)"

definition historyEntry :: "string \<Rightarrow> string \<Rightarrow> string" where
  "historyEntry timestamp message = ''['' @ timestamp @ ''] USER: '' @ message"

text \<open>
  The callback from the completion of its read to its end; \<open>timestamp\<close> is what
  \<open>new Date().toLocaleTimeString()\<close> returns then. Nothing in it asks whether the
  watcher is still open or the promise still pending.
\<close>

definition onEvent :: "revision \<Rightarrow> string \<Rightarrow> fsevent \<Rightarrow> state \<Rightarrow> state" where
  "onEvent r timestamp event s =
     (case event of
        Rename \<Rightarrow> s
      | Change None \<Rightarrow> s
      | Change (Some content) \<Rightarrow>
          (let trimmed = trim content in
           if trimmed = [] then s
           else if \<not> hasSendMarker r trimmed then s
           else (let m = userMessage r trimmed in
                 if m = [] then s
                 else resolve (Obj [(''status'', Str ''success''), (''user_message'', Str m)])
                        (s\<lparr>watching := False,
                           closeCalls := closeCalls s + 1,
                           history := history s @ [historyEntry timestamp m]\<rparr>))))"

text \<open>
  \<open>waitForUserInput\<close> up to the point where it returns its promise: the file is
  rewritten and a new watcher and a new promise exist. (The writes to the error stream and
  the attempt to open an editor leave this state alone; file-system writes are taken to
  succeed.)
\<close>

definition beginWait :: "revision \<Rightarrow> state \<Rightarrow> state" where
  "beginWait r s =
     (init s)\<lparr>fileBody := historyText r (history s),
              watching := True,
              closeCalls := 0,
              promise := None,
              inFlight := 0\<rparr>"

text \<open>
  What happens while a wait is in progress, one step at a time. The watcher delivers a
  notification: if it is still open, its callback starts, and for \<open>change\<close> suspends
  in its read. Or the read of a suspended callback completes, with the content it gives
  and the time at which the rest of the callback runs. That callback belongs either to
  the watcher of this wait or to the watcher of an earlier wait, whose callbacks may
  still be suspended when this wait begins: such a callback closes its own watcher and
  resolves its own promise, both settled long ago, but it appends to the history, which
  all waits share. Callbacks suspended at the same time complete in any order, so two of
  them can both pass the checks before either has closed the watcher.
\<close>

datatype notification = RenameEvent | ChangeEvent

datatype origin = ThisWait | EarlierWait

datatype step = Notify notification | ReadDone origin "string option" string

fun runStep :: "revision \<Rightarrow> step \<Rightarrow> state \<Rightarrow> state" where
  "runStep r (Notify RenameEvent) s = s"
| "runStep r (Notify ChangeEvent) s =
     (if watching s then s\<lparr>inFlight := inFlight s + 1\<rparr> else s)"
| "runStep r (ReadDone ThisWait content timestamp) s =
     (if inFlight s = 0 then s
      else onEvent r timestamp (Change content) (s\<lparr>inFlight := inFlight s - 1\<rparr>))"
| "runStep r (ReadDone EarlierWait content timestamp) s =
     (onEvent r timestamp (Change content) s)
       \<lparr>watching := watching s, closeCalls := closeCalls s, promise := promise s\<rparr>"

fun runSteps :: "revision \<Rightarrow> step list \<Rightarrow> state \<Rightarrow> state" where
  "runSteps r [] s = s"
| "runSteps r (x # xs) s = runSteps r xs (runStep r x s)"

text \<open>
  The call returns the value its promise was resolved with. The steps of a wait are those
  up to the resolution and those that follow it before the next request is handled (the
  reads of callbacks that had started already; a notification after the close starts
  none). If no step resolves the promise the call never returns, which is \<open>None\<close>.
\<close>

definition awaitInput :: "revision \<Rightarrow> step list \<Rightarrow> state \<Rightarrow> (jsval \<times> state) option" where
  "awaitInput r steps s =
     (let s' = runSteps r steps s in
      case promise s' of
        None \<Rightarrow> None
      | Some v \<Rightarrow> Some (v, s'))"

definition waitForUserInput :: "revision \<Rightarrow> step list \<Rightarrow> state \<Rightarrow> (jsval \<times> state) option" where
  "waitForUserInput r steps s = awaitInput r steps (beginWait r s)"

section \<open>The Protocol Dispatcher\<close>

text \<open>
  What the program throws and catches: the \<open>SyntaxError\<close> of \<open>JSON.parse\<close>, with
  the engine's message, and the \<open>TypeError\<close> of a property read on \<open>null\<close> or
  \<open>undefined\<close> or of a failed conversion to a string, with the property concerned.
\<close>

datatype jserror = SyntaxError string | TypeError string

text \<open>
  The parts of the platform the dispatcher calls: \<open>JSON.parse\<close>,
  \<open>JSON.stringify(v)\<close>, \<open>JSON.stringify(v, null, 2)\<close>, the text an error gives in a
  template literal, and \<open>join(tmpdir(), name)\<close>.
\<close>

record platform =
  JSON_parse :: "string \<Rightarrow> jserror + jsval"
  JSON_stringify :: "jsval \<Rightarrow> string"
  JSON_stringify_indent :: "jsval \<Rightarrow> string"
  errorText :: "jserror \<Rightarrow> string"
  tmpJoin :: "string \<Rightarrow> string"

fun fileName :: "revision \<Rightarrow> string" where
  "fileName PlainText = ''windsurf_user_input.txt''"
| "fileName Markdown = ''windsurf_user_input.md''"

definition INPUT_FILE :: "platform \<Rightarrow> revision \<Rightarrow> string" where
  "INPUT_FILE P r = tmpJoin P (fileName r)"

definition getInputFilePath :: "platform \<Rightarrow> revision \<Rightarrow> jsval" where
  "getInputFilePath P r = Obj [(''status'', Str ''success''), (''input_file'', Str (INPUT_FILE P r))]"

definition tools :: jsval where
  "tools = Arr
     [Obj [(''name'', Str ''wait_for_user_input''),
           (''description'', Str (''Call this to pause and wait for user input via a temp file. '' @
              ''The user writes their message to the file, and this tool returns it. '' @
              ''Use this instead of ending the conversation to save credits.'')),
           (''inputSchema'', Obj [(''type'', Str ''object''), (''properties'', Obj [])])],
      Obj [(''name'', Str ''get_input_file''),
           (''description'', Str ''Get the path to the input file where users write their messages.''),
           (''inputSchema'', Obj [(''type'', Str ''object''), (''properties'', Obj [])])]]"

text \<open>
  Reading a property \<open>v.k\<close> throws when \<open>v\<close> is \<open>null\<close> or \<open>undefined\<close>;
  otherwise \<open>get\<close> is its value. The program reads \<open>method\<close>, \<open>id\<close>, \<open>params\<close>,
  \<open>name\<close> and \<open>arguments\<close>, which only an object can have.
\<close>

fun nullish :: "jsval \<Rightarrow> bool" where
  "nullish Undefined = True"
| "nullish Null = True"
| "nullish v = False"

fun get :: "jsval \<Rightarrow> string \<Rightarrow> jsval" where
  "get (Obj kvs) k = (case map_of kvs k of Some v \<Rightarrow> v | None \<Rightarrow> Undefined)"
| "get v k = Undefined"

fun truthy :: "jsval \<Rightarrow> bool" where
  "truthy Undefined = False"
| "truthy Null = False"
| "truthy (Bool b) = b"
| "truthy (Num n) = (n \<noteq> ''0'' \<and> n \<noteq> ''NaN'')"
| "truthy (Str t) = (t \<noteq> [])"
| "truthy v = True"

text \<open>
  The conversion to a string that a template literal applies. An array joins its
  elements with commas; an object gives \<open>[object Object]\<close>, unless it has a key
  \<open>toString\<close> of its own: that hides the inherited method, and the conversion throws.
\<close>

fun toStr :: "jsval \<Rightarrow> jserror + string"
  and joinElements :: "jsval list \<Rightarrow> jserror + string" where
  "toStr Undefined = Inr ''undefined''"
| "toStr Null = Inr ''null''"
| "toStr (Bool b) = Inr (if b then ''true'' else ''false'')"
| "toStr (Num n) = Inr n"
| "toStr (Str t) = Inr t"
| "toStr (Arr vs) = joinElements vs"
| "toStr (Obj kvs) =
     (if map_of kvs ''toString'' \<noteq> None then Inl (TypeError ''toString'')
      else Inr ''[object Object]'')"
| "joinElements [] = Inr []"
| "joinElements (v # vs) =
     (case (if nullish v then Inr [] else toStr v) of
        Inl e \<Rightarrow> Inl e
      | Inr a \<Rightarrow>
          (if vs = [] then Inr a
           else (case joinElements vs of
                   Inl e \<Rightarrow> Inl e
                 | Inr b \<Rightarrow> Inr (a @ '','' @ b))))"

text \<open>
  The world of the dispatcher: the steps that will occur during each of the coming waits
  (one list for each wait, in order) and the server's state.
\<close>

type_synonym world = "step list list \<times> state"

text \<open>
  A call either never returns (\<open>None\<close>), throws (\<open>Inl\<close>) or returns a value and
  the world it leaves.
\<close>

definition handleToolCall ::
    "platform \<Rightarrow> revision \<Rightarrow> jsval \<Rightarrow> jsval \<Rightarrow> world \<Rightarrow> (jserror + jsval \<times> world) option" where
  "handleToolCall P r name args w =
     (if name = Str ''wait_for_user_input'' then
        (case w of
           ([], s) \<Rightarrow> map_option (\<lambda>(v, s'). Inr (v, ([], s'))) (waitForUserInput r [] s)
         | (events # feed, s) \<Rightarrow> map_option (\<lambda>(v, s'). Inr (v, (feed, s'))) (waitForUserInput r events s))
      else if name = Str ''get_input_file'' then Some (Inr (getInputFilePath P r, w))
      else (case toStr name of
              Inl e \<Rightarrow> Some (Inl e)
            | Inr text \<Rightarrow>
                Some (Inr (Obj [(''status'', Str ''error''), (''message'', Str (''Unknown tool: '' @ text))], w))))"

definition tryBlock ::
    "platform \<Rightarrow> revision \<Rightarrow> string \<Rightarrow> world \<Rightarrow> (jserror + string \<times> world) option" where
  "tryBlock P r message w =
     (case JSON_parse P message of
        Inl e \<Rightarrow> Some (Inl e)
      | Inr request \<Rightarrow>
          if nullish request then Some (Inl (TypeError ''method''))
          else if get request ''method'' = Str ''initialize'' then
            Some (Inr (JSON_stringify P (Obj
              [(''jsonrpc'', Str ''2.0''),
               (''id'', get request ''id''),
               (''result'', Obj
                  [(''protocolVersion'', Str ''2024-11-05''),
                   (''capabilities'', Obj [(''tools'', Obj [])]),
                   (''serverInfo'', Obj [(''name'', Str ''llm-response-mcp''),
                                         (''version'', Str ''1.0.0'')])])]), w))
          else if get request ''method'' = Str ''tools/list'' then
            Some (Inr (JSON_stringify P (Obj
              [(''jsonrpc'', Str ''2.0''),
               (''id'', get request ''id''),
               (''result'', Obj [(''tools'', tools)])]), w))
          else if get request ''method'' = Str ''tools/call'' then
            (let params = get request ''params'' in
             if nullish params then Some (Inl (TypeError ''name''))
             else
               (case handleToolCall P r (get params ''name'')
                       (if truthy (get params ''arguments'') then get params ''arguments'' else Obj []) w of
                  None \<Rightarrow> None
                | Some (Inl e) \<Rightarrow> Some (Inl e)
                | Some (Inr (result, w')) \<Rightarrow>
                    Some (Inr (JSON_stringify P (Obj
                      [(''jsonrpc'', Str ''2.0''),
                       (''id'', get request ''id''),
                       (''result'', Obj
                          [(''content'', Arr
                             [Obj [(''type'', Str ''text''),
                                   (''text'', Str (JSON_stringify_indent P result))]])])]), w'))))
          else if get request ''method'' = Str ''notifications/initialized'' then
            Some (Inr ([], w))
          else
            Some (Inr (JSON_stringify P (Obj
              [(''jsonrpc'', Str ''2.0''),
               (''id'', get request ''id''),
               (''error'', Obj [(''code'', Num ''-32601''),
                                (''message'', Str ''Method not found'')])]), w)))"

text \<open>
  \<open>handleMessage\<close>: the body above inside \<open>try\<close>, and the \<open>catch\<close> that answers
  whatever was thrown. Nothing is thrown after the state has changed.
\<close>

definition parseError :: "platform \<Rightarrow> jserror \<Rightarrow> jsval" where
  "parseError P err =
     Obj [(''jsonrpc'', Str ''2.0''),
          (''id'', Null),
          (''error'', Obj [(''code'', Num ''-32700''),
                           (''message'', Str (''Parse error: '' @ errorText P err))])]"

definition handleMessage ::
    "platform \<Rightarrow> revision \<Rightarrow> string \<Rightarrow> world \<Rightarrow> (string \<times> world) option" where
  "handleMessage P r message w =
     (case tryBlock P r message w of
        None \<Rightarrow> None
      | Some (Inr res) \<Rightarrow> Some res
      | Some (Inl err) \<Rightarrow> Some (JSON_stringify P (parseError P err), w))"

text \<open>
  The read loop of \<open>main\<close>. \<open>processLines\<close> is the inner loop: it takes the complete
  lines off the buffer, answers each line that is not blank and writes each answer that is
  not the empty string to standard output. \<open>readLoop\<close> is the outer loop over the chunks
  read from standard input. Both are \<open>None\<close> when a call never returns.
\<close>

fun indexOf :: "string \<Rightarrow> char \<Rightarrow> nat option" where
  "indexOf [] c = None"
| "indexOf (x # xs) c = (if x = c then Some 0 else map_option Suc (indexOf xs c))"

function processLines ::
    "platform \<Rightarrow> revision \<Rightarrow> string \<Rightarrow> string list \<times> world \<Rightarrow> (string \<times> string list \<times> world) option" where
  "processLines P r buffer (out, w) =
     (case indexOf buffer (CHR 0x0A) of
        None \<Rightarrow> Some (buffer, out, w)
      | Some newlineIndex \<Rightarrow>
          (let line = trim (take newlineIndex buffer);
               buffer' = drop (Suc newlineIndex) buffer
           in if line \<noteq> [] then
                (case handleMessage P r line w of
                   None \<Rightarrow> None
                 | Some (response, w') \<Rightarrow>
                     processLines P r buffer' (if response \<noteq> [] then out @ [response] else out, w'))
              else processLines P r buffer' (out, w)))"
  by pat_completeness auto
termination
proof (relation "measure (\<lambda>(P, r, buffer, ow). length buffer)", goal_cases)
  case 1
  show ?case by simp
next
  case (2 P r buffer out w newlineIndex line buffer')
  then show ?case by (cases buffer) auto
next
  case (3 P r buffer out w newlineIndex line buffer')
  then show ?case by (cases buffer) auto
qed

declare processLines.simps [simp del]

fun readLoop ::
    "platform \<Rightarrow> revision \<Rightarrow> string list \<Rightarrow> string \<Rightarrow> string list \<times> world \<Rightarrow> (string list \<times> world) option" where
  "readLoop P r [] buffer (out, w) = Some (out, w)"
| "readLoop P r (chunk # chunks) buffer (out, w) =
     (case processLines P r (buffer @ chunk) (out, w) of
        None \<Rightarrow> None
      | Some (buffer', out', w') \<Rightarrow> readLoop P r chunks buffer' (out', w'))"

definition main :: "platform \<Rightarrow> revision \<Rightarrow> string list \<Rightarrow> world \<Rightarrow> (string list \<times> world) option" where
  "main P r chunks w = readLoop P r chunks [] ([], (fst w, init (snd w)))"

section \<open>A platform for running the model\<close>

text \<open>
  The theorems below hold for every platform. To run the dispatcher on concrete lines,
  this platform has a serialiser for the values of the examples (quotes, backslashes and
  line feeds are escaped; a key whose value is \<open>undefined\<close> is left out), with and
  without indentation, and a parser that knows four request lines and rejects every
  other text.
\<close>

definition quote :: "string \<Rightarrow> string" where
  "quote t =
     [CHR 0x22] @
     concat (map (\<lambda>c. if c = CHR 0x22 then [CHR 0x5C, CHR 0x22]
                       else if c = CHR 0x5C then [CHR 0x5C, CHR 0x5C]
                       else if c = CHR 0x0A then [CHR 0x5C, CHR ''n'']
                       else [c]) t) @
     [CHR 0x22]"

fun compact :: "jsval \<Rightarrow> string"
  and compactElements :: "jsval list \<Rightarrow> string list"
  and compactMembers :: "(string \<times> jsval) list \<Rightarrow> string list" where
  "compact Undefined = ''null''"
| "compact Null = ''null''"
| "compact (Bool b) = (if b then ''true'' else ''false'')"
| "compact (Num n) = n"
| "compact (Str t) = quote t"
| "compact (Arr vs) = ''['' @ join (compactElements vs) '','' @ '']''"
| "compact (Obj kvs) = ''{'' @ join (compactMembers kvs) '','' @ ''}''"
| "compactElements [] = []"
| "compactElements (v # vs) = compact v # compactElements vs"
| "compactMembers [] = []"
| "compactMembers ((k, v) # kvs) =
     (if v = Undefined then compactMembers kvs
      else (quote k @ '':'' @ compact v) # compactMembers kvs)"

fun indented :: "nat \<Rightarrow> jsval \<Rightarrow> string"
  and indentedElements :: "nat \<Rightarrow> jsval list \<Rightarrow> string list"
  and indentedMembers :: "nat \<Rightarrow> (string \<times> jsval) list \<Rightarrow> string list" where
  "indented n (Arr vs) =
     (if vs = [] then ''[]''
      else ''['' @ nl @ join (indentedElements (n + 2) vs) ('','' @ nl) @ nl @ replicate n CHR '' '' @ '']'')"
| "indented n (Obj kvs) =
     (if indentedMembers (n + 2) kvs = [] then ''{}''
      else ''{'' @ nl @ join (indentedMembers (n + 2) kvs) ('','' @ nl) @ nl @ replicate n CHR '' '' @ ''}'')"
| "indented n v = compact v"
| "indentedElements n [] = []"
| "indentedElements n (v # vs) = (replicate n CHR '' '' @ indented n v) # indentedElements n vs"
| "indentedMembers n [] = []"
| "indentedMembers n ((k, v) # kvs) =
     (if v = Undefined then indentedMembers n kvs
      else (replicate n CHR '' '' @ quote k @ '': '' @ indented n v) # indentedMembers n kvs)"

definition unknownToolLine :: string where
  \<open>unknownToolLine = ''{"jsonrpc":"2.0","id":7,"method":"tools/call","params":{"name":"frobnicate"}}''\<close>

definition unknownMethodLine :: string where
  \<open>unknownMethodLine = ''{"jsonrpc":"2.0","id":8,"method":"resources/list"}''\<close>

definition noParamsLine :: string where
  \<open>noParamsLine = ''{"jsonrpc":"2.0","id":9,"method":"tools/call"}''\<close>

definition numberParamsLine :: string where
  \<open>numberParamsLine = ''{"jsonrpc":"2.0","id":10,"method":"tools/call","params":5}''\<close>

definition sampleRequests :: "(string \<times> jsval) list" where
  "sampleRequests =
     [(unknownToolLine,
       Obj [(''jsonrpc'', Str ''2.0''), (''id'', Num ''7''), (''method'', Str ''tools/call''),
            (''params'', Obj [(''name'', Str ''frobnicate'')])]),
      (unknownMethodLine,
       Obj [(''jsonrpc'', Str ''2.0''), (''id'', Num ''8''), (''method'', Str ''resources/list'')]),
      (noParamsLine,
       Obj [(''jsonrpc'', Str ''2.0''), (''id'', Num ''9''), (''method'', Str ''tools/call'')]),
      (numberParamsLine,
       Obj [(''jsonrpc'', Str ''2.0''), (''id'', Num ''10''), (''method'', Str ''tools/call''),
            (''params'', Num ''5'')])]"

definition samplePlatform :: platform where
  "samplePlatform =
     \<lparr>JSON_parse = (\<lambda>text. case map_of sampleRequests text of
                              Some v \<Rightarrow> Inr v
                            | None \<Rightarrow> Inl (SyntaxError ''JSON Parse error'')),
      JSON_stringify = compact,
      JSON_stringify_indent = indented 0,
      errorText = (\<lambda>e. case e of
                           SyntaxError m \<Rightarrow> ''SyntaxError: '' @ m
                         | TypeError p \<Rightarrow> ''TypeError: cannot read '' @ p),
      tmpJoin = (\<lambda>name. ''/tmp/'' @ name)\<rparr>"

section \<open>Properties of the string operations\<close>

lemma trim_prefix_decomp: "dropWhile isSpace s = trim s @ rev (takeWhile isSpace (rev (dropWhile isSpace s)))"
proof -
  let ?d = "dropWhile isSpace s"
  have "rev (rev ?d) = rev (dropWhile isSpace (rev ?d)) @ rev (takeWhile isSpace (rev ?d))"
    by (metis rev_append takeWhile_dropWhile_id)
  then show ?thesis by (simp add: trim_def)
qed

lemma trim_no_leading: "trim s \<noteq> [] \<Longrightarrow> \<not> isSpace (hd (trim s))"
proof -
  assume ne: "trim s \<noteq> []"
  let ?d = "dropWhile isSpace s"
  obtain z where d: "?d = trim s @ z" using trim_prefix_decomp by blast
  from ne have "hd ?d = hd (trim s)" by (simp add: d)
  moreover from ne have "?d \<noteq> []" by (simp add: d)
  then have "\<not> isSpace (hd ?d)" by (rule hd_dropWhile)
  ultimately show ?thesis by simp
qed

lemma trim_no_trailing: "trim s \<noteq> [] \<Longrightarrow> \<not> isSpace (last (trim s))"
proof -
  assume ne: "trim s \<noteq> []"
  let ?e = "dropWhile isSpace (rev (dropWhile isSpace s))"
  from ne have "?e \<noteq> []" by (simp add: trim_def)
  then have "\<not> isSpace (hd ?e)" by (rule hd_dropWhile)
  moreover have "last (trim s) = hd ?e" using \<open>?e \<noteq> []\<close> by (simp add: trim_def last_rev)
  ultimately show ?thesis by simp
qed

lemma trim_fixed: "s = [] \<or> (\<not> isSpace (hd s) \<and> \<not> isSpace (last s)) \<Longrightarrow> trim s = s"
proof (cases "s = []")
  case True then show ?thesis by (simp add: trim_def)
next
  case False
  assume "s = [] \<or> (\<not> isSpace (hd s) \<and> \<not> isSpace (last s))"
  with False have h: "\<not> isSpace (hd s)" and l: "\<not> isSpace (last s)" by auto
  from False h have 1: "dropWhile isSpace s = s" by (simp add: dropWhile_eq_self_iff)
  from False l have 2: "dropWhile isSpace (rev s) = rev s" by (simp add: dropWhile_eq_self_iff hd_rev)
  show ?thesis by (simp add: trim_def 1 2)
qed

lemma trim_idem: "trim (trim s) = trim s"
  using trim_no_leading [of s] trim_no_trailing [of s] by (intro trim_fixed) auto

lemma trim_spaces_around:
  assumes "\<forall>c \<in> set a. isSpace c" "\<forall>c \<in> set b. isSpace c"
  shows "trim (a @ m @ b) = trim m"
proof (cases "\<forall>c \<in> set m. isSpace c")
  case True
  with assms have "\<forall>c \<in> set (a @ m @ b). isSpace c" by auto
  then have A: "dropWhile isSpace (a @ m @ b) = []" by (metis dropWhile_eq_Nil_conv)
  from True have B: "dropWhile isSpace m = []" by simp
  show ?thesis unfolding trim_def A B by simp
next
  case False
  then obtain x where "x \<in> set m" "\<not> isSpace x" by auto
  then have "dropWhile isSpace (m @ b) = dropWhile isSpace m @ b" by (rule dropWhile_append1)
  then have 1: "dropWhile isSpace (a @ m @ b) = dropWhile isSpace m @ b"
    using assms(1) by (simp add: dropWhile_append2)
  from False have ne: "\<not> (\<forall>c \<in> set (dropWhile isSpace m). isSpace c)"
    by (metis dropWhile_eq_Nil_conv hd_dropWhile hd_in_set)
  have "dropWhile isSpace (rev b @ rev (dropWhile isSpace m)) = dropWhile isSpace (rev (dropWhile isSpace m))"
    by (rule dropWhile_append2) (use assms(2) in auto)
  then show ?thesis unfolding trim_def 1 by simp
qed

lemma includes_iff: "includes_str s t \<longleftrightarrow> (\<exists>pre post. s = pre @ t @ post)"
proof (induction s)
  case Nil
  then show ?case by auto
next
  case (Cons c cs)
  show ?case
  proof
    assume "includes_str (c # cs) t"
    then consider "startsWith (c # cs) t" | "includes_str cs t" by auto
    then show "\<exists>pre post. c # cs = pre @ t @ post"
    proof cases
      case 1
      then have "c # cs = [] @ t @ drop (length t) (c # cs)"
        unfolding startsWith_def by (metis append_Nil append_take_drop_id)
      then show ?thesis by blast
    next
      case 2
      with Cons obtain pre post where "cs = pre @ t @ post" by auto
      then have "c # cs = (c # pre) @ t @ post" by simp
      then show ?thesis by blast
    qed
  next
    assume "\<exists>pre post. c # cs = pre @ t @ post"
    then obtain pre post where e: "c # cs = pre @ t @ post" by auto
    show "includes_str (c # cs) t"
    proof (cases pre)
      case Nil
      with e have "startsWith (c # cs) t" by (simp add: startsWith_def)
      then show ?thesis by simp
    next
      case (Cons p ps)
      with e have "cs = ps @ t @ post" by simp
      with Cons.IH have "includes_str cs t" by auto
      then show ?thesis by simp
    qed
  qed
qed

lemma matchHere_lits:
  "matchHere (lits m @ rest) s =
     (if length m \<le> length s \<and> list_all2 sameChar (take (length m) s) m
      then matchHere rest (drop (length m) s) else None)"
proof (induction m arbitrary: s)
  case Nil
  then show ?case by (simp add: lits_def)
next
  case (Cons c m)
  then show ?case by (cases s) (auto simp: lits_def)
qed


lemma upper_marker_chars:
  "toUpperChar CHR ''/'' = CHR ''/''" "toUpperChar CHR ''S'' = CHR ''S''"
  "toUpperChar CHR ''E'' = CHR ''E''" "toUpperChar CHR ''N'' = CHR ''N''"
  "toUpperChar CHR ''D'' = CHR ''D''" "toUpperChar CHR ''`'' = CHR ''`''"
  by (simp_all add: toUpperChar_def)

lemma upper_is_slash: "toUpperChar x = CHR ''/'' \<longleftrightarrow> x = CHR ''/''"
  by (auto simp: toUpperChar_def split: if_splits)

lemma upper_is_D: "toUpperChar x = CHR ''D'' \<longleftrightarrow> x = CHR ''D'' \<or> x = CHR ''d''"
  by (auto simp: toUpperChar_def split: if_splits)

lemma upper_is_S: "toUpperChar x = CHR ''S'' \<longleftrightarrow> x = CHR ''S'' \<or> x = CHR ''s''"
  by (auto simp: toUpperChar_def split: if_splits)

lemma sameChar_marker: "list_all2 sameChar xs ''//SEND'' \<longleftrightarrow> toUpperCase xs = ''//SEND''"
  by (auto simp: list_all2_Cons2 toUpperCase_def sameChar_def upper_marker_chars)

lemma marker_shape:
  assumes "toUpperCase m = ''//SEND''"
  obtains c3 c4 c5 c6 where "m = [CHR ''/'', CHR ''/'', c3, c4, c5, c6]"
    "toUpperChar c3 = CHR ''S''" "toUpperChar c4 = CHR ''E''" "toUpperChar c5 = CHR ''N''"
    "c6 = CHR ''D'' \<or> c6 = CHR ''d''"
  using assms by (auto simp: toUpperCase_def map_eq_Cons_conv upper_is_slash upper_is_D)

lemma marker_length: "toUpperCase m = ''//SEND'' \<Longrightarrow> length m = 6"
proof -
  assume a: "toUpperCase m = ''//SEND''"
  have "length (toUpperCase m) = 6" by (simp add: a)
  then show ?thesis by (simp add: toUpperCase_def)
qed

lemma trim_marker: "toUpperCase m = ''//SEND'' \<Longrightarrow> trim m = m"
  by (erule marker_shape, rule trim_fixed) (auto simp: isSpace_def)

lemma endsWith_iff: "endsWith s t \<longleftrightarrow> (\<exists>pre. s = pre @ t)"
proof
  assume "endsWith s t"
  then have "s = take (length s - length t) s @ t"
    unfolding endsWith_def by (metis append_take_drop_id)
  then show "\<exists>pre. s = pre @ t" ..
next
  assume "\<exists>pre. s = pre @ t"
  then show "endsWith s t" by (auto simp: endsWith_def)
qed

lemma plainText_marker_iff:
  "hasSendMarker PlainText t \<longleftrightarrow> (\<exists>body m. t = body @ m \<and> toUpperCase m = ''//SEND'')"
proof
  assume "hasSendMarker PlainText t"
  then obtain pre where p: "toUpperCase t = pre @ ''//SEND''" by (auto simp: endsWith_iff)
  let ?k = "length t - 6"
  have "length (toUpperCase t) = length pre + 6" by (simp add: p)
  then have "length t = length pre + 6" by (simp add: toUpperCase_def)
  then have k: "?k = length pre" by simp
  have "toUpperCase (drop ?k t) = drop ?k (toUpperCase t)" by (simp add: toUpperCase_def drop_map)
  also have "\<dots> = ''//SEND''" by (simp add: p k)
  finally have "t = take ?k t @ drop ?k t \<and> toUpperCase (drop ?k t) = ''//SEND''" by simp
  then show "\<exists>body m. t = body @ m \<and> toUpperCase m = ''//SEND''" by blast
next
  assume "\<exists>body m. t = body @ m \<and> toUpperCase m = ''//SEND''"
  then obtain body m where "t = body @ m" "toUpperCase m = ''//SEND''" by auto
  then have "toUpperCase t = toUpperCase body @ ''//SEND''" by (simp add: toUpperCase_def)
  then show "hasSendMarker PlainText t" by (auto simp: endsWith_iff)
qed

lemma search_sendEnd:
  "toUpperCase m = ''//SEND'' \<Longrightarrow> search reSendEnd pre (body @ m) = Some (pre @ body, [], [])"
proof (induction body arbitrary: pre)
  case Nil
  then have l: "length m = 6" by (rule marker_length)
  with Nil have "matchHere reSendEnd m = Some ([], [])"
    by (simp add: reSendEnd_def matchHere_lits sameChar_marker)
  with l show ?case by (cases m) auto
next
  case (Cons b body)
  have l: "length m = 6" using Cons.prems by (rule marker_length)
  define q where "q = b # body @ m"
  have "6 < length q" by (simp add: q_def l)
  then have "drop 6 q \<noteq> []" by simp
  then have "matchHere reSendEnd q = None"
    by (simp add: reSendEnd_def matchHere_lits)
  then have "matchHere reSendEnd (b # body @ m) = None" by (simp only: q_def)
  with Cons.IH [OF Cons.prems, of "pre @ [b]"] show ?case by simp
qed

lemma matchHere_fence_marker:
  "matchHere reSendFence s = Some x \<Longrightarrow> startsWith (toUpperCase s) ''//SEND''"
  by (auto simp: reSendFence_def matchHere_lits sameChar_marker startsWith_def toUpperCase_def take_map split: if_splits)

lemma search_fence_marker:
  "search reSendFence pre s = Some x \<Longrightarrow> includes_str (toUpperCase s) ''//SEND''"
proof (induction s arbitrary: pre)
  case Nil
  then show ?case by (auto simp: reSendFence_def lits_def split: option.splits)
next
  case (Cons c s)
  show ?case
  proof (cases "matchHere reSendFence (c # s)")
    case None
    with Cons.prems have "search reSendFence (pre @ [c]) s = Some x" by simp
    then have "includes_str (toUpperCase s) ''//SEND''" by (rule Cons.IH)
    then show ?thesis by (simp add: toUpperCase_def)
  next
    case (Some y)
    then have "startsWith (toUpperCase (c # s)) ''//SEND''" by (rule matchHere_fence_marker)
    then show ?thesis by (simp add: toUpperCase_def)
  qed
qed

lemma no_marker_rejected:
  "\<not> includes_str (toUpperCase t) ''//SEND'' \<Longrightarrow> \<not> hasSendMarker r t"
proof (cases r)
  case PlainText
  assume "\<not> includes_str (toUpperCase t) ''//SEND''"
  then have "\<not> endsWith (toUpperCase t) ''//SEND''"
    unfolding includes_iff endsWith_iff by (metis append_Nil2)
  with PlainText show ?thesis by simp
next
  case Markdown
  assume "\<not> includes_str (toUpperCase t) ''//SEND''"
  then have "search reSendFence [] t = None" using search_fence_marker by (cases "search reSendFence [] t") auto
  with Markdown show ?thesis by (simp add: test_def)
qed

lemma includes_length: "includes_str s t \<Longrightarrow> length t \<le> length s"
  by (auto simp: includes_iff)

lemma hasSendMarker_Nil: "\<not> hasSendMarker r []"
  by (cases r) (simp_all add: endsWith_def toUpperCase_def test_def reSendFence_def lits_def)

lemma onEvent_change:
  "onEvent r ts (Change (Some content)) s =
     (if hasSendMarker r (trim content) \<and> userMessage r (trim content) \<noteq> []
      then resolve (Obj [(''status'', Str ''success''), (''user_message'', Str (userMessage r (trim content)))])
             (s\<lparr>watching := False, closeCalls := closeCalls s + 1,
                history := history s @ [historyEntry ts (userMessage r (trim content))]\<rparr>)
      else s)"
  using hasSendMarker_Nil [of r] by (auto simp: onEvent_def Let_def)

lemma search_fence_bare:
  assumes "toUpperCase m = ''//SEND''"
  shows "search reSendFence pre m = None"
  using assms
  by (elim marker_shape) (auto simp: reSendFence_def matchHere_lits)

lemma bare_marker_rejected:
  assumes "toUpperCase m = ''//SEND''"
  shows "\<not> (hasSendMarker r m \<and> userMessage r m \<noteq> [])"
proof (cases r)
  case PlainText
  have "\<not> includes_str m separator"
    using includes_length [of m separator] marker_length [OF assms] by (auto simp: separator_def)
  moreover have "replaceEmpty reSendEnd m = []"
    using search_sendEnd [OF assms, of "[]" "[]"] by (simp add: replaceEmpty_def)
  ultimately show ?thesis using PlainText by (simp add: trim_def)
next
  case Markdown
  then show ?thesis using search_fence_bare [OF assms] by (simp add: test_def)
qed

lemmas run_defs =
  trim_def isSpace_def toUpperCase_def toUpperChar_def sameChar_def startsWith_def endsWith_def
  test_def replaceEmpty_def matchGroup_def lits_def reSendEnd_def reSendFence_def reCodeBlock_def
  separator_def instructions_def historyEntry_def resolve_def init_def beginWait_def
  waitForUserInput_def awaitInput_def newServer_def Let_def

section \<open>The completion test and the extraction\<close>

text \<open>
  In src/index.ts a trimmed content passes the test exactly if it ends with the marker in
  some letter case (\<open>plainText_marker_iff\<close>), and the message is what precedes the
  marker, trimmed (\<open>plainText_extracts\<close>); when the separator line occurs once, it
  is what stands between that line and the marker
  (\<open>plainText_extracts_below_separator\<close>). In the Markdown revision the expression of
  the test asks for two or three backticks after the marker, so no content that ends with
  the marker itself passes (\<open>markdown_rejects_bare_marker\<close>), and the fallback of the
  extraction, which uses the same expression, would leave the marker in place
  (\<open>markdown_fallback_keeps_marker\<close>).
\<close>

lemma upper_is_backtick: "toUpperChar x = CHR ''`'' \<longleftrightarrow> x = CHR ''`''"
  by (auto simp: toUpperChar_def split: if_splits)

lemma tail_spaces_end: "matchHere [Spaces, End] s = Some x \<Longrightarrow> fenceTail s"
  by (induction s) (auto simp: fenceTail_def split: if_splits option.splits)

lemma tail_opt: "matchHere [Opt CHR ''`'', Spaces, End] s = Some x \<Longrightarrow> fenceTail s"
proof (cases s)
  case Nil
  then show ?thesis by (simp add: fenceTail_def)
next
  case (Cons c cs)
  assume m: "matchHere [Opt CHR ''`'', Spaces, End] s = Some x"
  show ?thesis
  proof (cases "matchHere [Spaces, End] s")
    case (Some y)
    then show ?thesis by (rule tail_spaces_end)
  next
    case None
    with m Cons have "sameChar c CHR ''`''" and "matchHere [Spaces, End] cs = Some x"
      by (auto split: if_splits option.splits)
    then have "c = CHR ''`''" and "fenceTail cs"
      by (auto simp: sameChar_def upper_marker_chars upper_is_backtick dest: tail_spaces_end)
    with Cons show ?thesis by (simp add: fenceTail_def)
  qed
qed

lemma tail_ticks:
  "matchHere [Lit CHR ''`'', Lit CHR ''`'', Opt CHR ''`'', Spaces, End] s = Some x \<Longrightarrow> s \<noteq> [] \<and> fenceTail s"
proof -
  assume m: "matchHere [Lit CHR ''`'', Lit CHR ''`'', Opt CHR ''`'', Spaces, End] s = Some x"
  then obtain a b cs where s: "s = a # b # cs"
    by (cases s; cases "tl s") (auto split: if_splits)
  with m have "sameChar a CHR ''`''" "sameChar b CHR ''`''" "matchHere [Opt CHR ''`'', Spaces, End] cs = Some x"
    by (auto split: if_splits)
  then have "a = CHR ''`''" "b = CHR ''`''" "fenceTail cs"
    by (auto simp: sameChar_def upper_marker_chars upper_is_backtick dest: tail_opt)
  with s show ?thesis by (simp add: fenceTail_def)
qed

lemma tail_fence:
  "matchHere [Spaces, Lit CHR ''`'', Lit CHR ''`'', Opt CHR ''`'', Spaces, End] s = Some x \<Longrightarrow>
   s \<noteq> [] \<and> fenceTail s"
proof (induction s)
  case Nil
  then show ?case by simp
next
  case (Cons c cs)
  show ?case
  proof (cases "matchHere [Lit CHR ''`'', Lit CHR ''`'', Opt CHR ''`'', Spaces, End] (c # cs)")
    case (Some y)
    then show ?thesis by (rule tail_ticks)
  next
    case None
    with Cons.prems have "isSpace c"
      and "matchHere [Spaces, Lit CHR ''`'', Lit CHR ''`'', Opt CHR ''`'', Spaces, End] cs = Some x"
      by (auto split: if_splits option.splits)
    with Cons.IH show ?thesis by (simp add: fenceTail_def)
  qed
qed

lemma matchHere_fence_last:
  assumes "matchHere reSendFence s = Some x"
  shows "s \<noteq> [] \<and> (isSpace (last s) \<or> last s = CHR ''`'')"
proof -
  let ?tail = "[Spaces, Lit CHR ''`'', Lit CHR ''`'', Opt CHR ''`'', Spaces, End]"
  let ?rest = "drop (length ''//SEND'') s"
  from assms have "matchHere (lits ''//SEND'' @ ?tail) s = Some x" by (simp add: reSendFence_def)
  then have "matchHere ?tail ?rest = Some x"
    unfolding matchHere_lits by (simp split: if_splits)
  then have d: "?rest \<noteq> []" and f: "fenceTail ?rest" using tail_fence by blast+
  from d have "last s = last ?rest" by simp
  moreover from d f have "isSpace (last ?rest) \<or> last ?rest = CHR ''`''"
    unfolding fenceTail_def using last_in_set by blast
  moreover from d have "s \<noteq> []" by auto
  ultimately show ?thesis by simp
qed

lemma search_fence_last:
  "search reSendFence pre s = Some x \<Longrightarrow> s \<noteq> [] \<and> (isSpace (last s) \<or> last s = CHR ''`'')"
proof (induction s arbitrary: pre)
  case Nil
  then show ?case by (auto simp: reSendFence_def lits_def split: option.splits)
next
  case (Cons c s)
  show ?case
  proof (cases "matchHere reSendFence (c # s)")
    case (Some y)
    then show ?thesis by (rule matchHere_fence_last)
  next
    case None
    with Cons.prems have "search reSendFence (pre @ [c]) s = Some x" by simp
    then have "s \<noteq> [] \<and> (isSpace (last s) \<or> last s = CHR ''`'')" by (rule Cons.IH)
    then show ?thesis by simp
  qed
qed

lemma marker_last: "toUpperCase m = ''//SEND'' \<Longrightarrow> last (body @ m) = CHR ''D'' \<or> last (body @ m) = CHR ''d''"
  by (erule marker_shape) auto

lemma markdown_rejects_bare_marker:
  assumes "toUpperCase m = ''//SEND''"
  shows "\<not> hasSendMarker Markdown (body @ m)"
proof
  assume "hasSendMarker Markdown (body @ m)"
  then obtain x where "search reSendFence [] (body @ m) = Some x" by (auto simp: test_def)
  then have "isSpace (last (body @ m)) \<or> last (body @ m) = CHR ''`''" using search_fence_last by blast
  with marker_last [OF assms, of body] show False by (auto simp: isSpace_def)
qed

lemma markdown_fallback_keeps_marker:
  assumes "toUpperCase m = ''//SEND''"
  shows "replaceEmpty reSendFence (body @ m) = body @ m"
proof -
  have "search reSendFence [] (body @ m) = None"
    using markdown_rejects_bare_marker [OF assms, of body]
    by (cases "search reSendFence [] (body @ m)") (auto simp: test_def)
  then show ?thesis by (simp add: replaceEmpty_def)
qed

lemma plainText_extracts:
  assumes "toUpperCase m = ''//SEND''" and "\<not> includes_str (body @ m) separator"
  shows "hasSendMarker PlainText (body @ m) \<and> userMessage PlainText (body @ m) = trim body"
proof -
  have "hasSendMarker PlainText (body @ m)" using assms(1) plainText_marker_iff by blast
  moreover have "replaceEmpty reSendEnd (body @ m) = body"
    using search_sendEnd [OF assms(1), of "[]" body] by (simp add: replaceEmpty_def)
  ultimately show ?thesis using assms(2) by simp
qed

lemma split_no_occurrence:
  assumes "sep \<noteq> []" and "\<forall>i. \<not> startsWith (drop i v) sep"
  shows "split sep v = [v]"
  using assms(2)
proof (induction v)
  case Nil
  with assms(1) show ?case by simp
next
  case (Cons c v)
  from Cons.prems have a: "\<not> startsWith (c # v) sep" by (metis drop0)
  have "\<forall>i. \<not> startsWith (drop i v) sep"
  proof
    fix i
    from Cons.prems have "\<not> startsWith (drop (Suc i) (c # v)) sep" by blast
    then show "\<not> startsWith (drop i v) sep" by simp
  qed
  then have "split sep v = [v]" by (rule Cons.IH)
  with a assms(1) show ?case by simp
qed

lemma split_single_occurrence:
  assumes "sep \<noteq> []"
    and "\<forall>i. startsWith (drop i (pre @ sep @ rest)) sep \<longrightarrow> i = length pre"
  shows "split sep (pre @ sep @ rest) = [pre, rest]"
  using assms(2)
proof (induction pre)
  case Nil
  have "\<forall>j. \<not> startsWith (drop j rest) sep"
  proof
    fix j
    show "\<not> startsWith (drop j rest) sep"
    proof
      assume "startsWith (drop j rest) sep"
      then have "startsWith (drop (length sep + j) ([] @ sep @ rest)) sep" by simp
      with Nil.prems have "length sep + j = length ([]::string)" by blast
      with assms(1) show False by simp
    qed
  qed
  with assms(1) have r: "split sep rest = [rest]" by (rule split_no_occurrence)
  obtain c cs where s: "sep = c # cs" using assms(1) by (cases sep) auto
  have "startsWith (sep @ rest) sep" by (simp add: startsWith_def)
  then have "split sep (sep @ rest) = [] # split sep (drop (length sep) (sep @ rest))"
    using s by simp
  with r show ?case by simp
next
  case (Cons c pre)
  from Cons.prems have a: "\<not> startsWith (c # pre @ sep @ rest) sep"
    by (metis drop0 append_Cons length_Cons nat.distinct(1))
  have "\<forall>i. startsWith (drop i (pre @ sep @ rest)) sep \<longrightarrow> i = length pre"
  proof (intro allI impI)
    fix i
    assume "startsWith (drop i (pre @ sep @ rest)) sep"
    then have "startsWith (drop (Suc i) ((c # pre) @ sep @ rest)) sep" by simp
    with Cons.prems have "Suc i = length (c # pre)" by blast
    then show "i = length pre" by simp
  qed
  then have "split sep (pre @ sep @ rest) = [pre, rest]" by (rule Cons.IH)
  with a assms(1) show ?case by simp
qed

lemma trim_before_marker:
  assumes "toUpperCase m = ''//SEND''"
  shows "trim (body @ m) = dropWhile isSpace body @ m"
proof -
  from assms obtain c cs where m: "m = c # cs" and c: "\<not> isSpace c"
    by (elim marker_shape) (auto simp: isSpace_def)
  from assms have l: "\<not> isSpace (last m)" and ne: "m \<noteq> []"
    using marker_last [OF assms, of "[]"] by (auto simp: isSpace_def m)
  have "dropWhile isSpace (body @ m) = dropWhile isSpace body @ m"
  proof (cases "\<forall>x \<in> set body. isSpace x")
    case True
    then have "dropWhile isSpace (body @ m) = dropWhile isSpace m" by (simp add: dropWhile_append2)
    moreover from True have "dropWhile isSpace body = []" by simp
    moreover from m c have "dropWhile isSpace m = m" by simp
    ultimately show ?thesis by simp
  next
    case False
    then obtain x where "x \<in> set body" "\<not> isSpace x" by auto
    then show ?thesis by (rule dropWhile_append1)
  qed
  moreover have "dropWhile isSpace (rev (dropWhile isSpace body @ m)) = rev (dropWhile isSpace body @ m)"
    using l ne by (simp add: dropWhile_eq_self_iff hd_append hd_rev)
  ultimately show ?thesis by (simp add: trim_def)
qed

lemma trim_dropWhile: "trim (dropWhile isSpace s) = trim s"
  by (simp add: trim_def)

lemma plainText_extracts_below_separator:
  assumes "toUpperCase m = ''//SEND''"
    and "\<forall>i. startsWith (drop i (pre @ separator @ body @ m)) separator \<longrightarrow> i = length pre"
  shows "userMessage PlainText (pre @ separator @ body @ m) = trim body"
proof -
  have sep: "separator \<noteq> []" by (simp add: separator_def)
  have inc: "includes_str (pre @ separator @ body @ m) separator"
    unfolding includes_iff by blast
  have "split separator (pre @ separator @ body @ m) = [pre, body @ m]"
    using sep assms(2) by (rule split_single_occurrence)
  moreover have "replaceEmpty reSendEnd (dropWhile isSpace body @ m) = dropWhile isSpace body"
    using search_sendEnd [OF assms(1), of "[]" "dropWhile isSpace body"] by (simp add: replaceEmpty_def)
  ultimately show ?thesis
    using inc by (simp add: trim_before_marker [OF assms(1)] trim_dropWhile)
qed

lemma userMessage_trimmed: "trim (userMessage r t) = userMessage r t"
  by (cases r) (auto simp: trim_idem split: option.splits)

lemma plainText_hello_world:
  "hasSendMarker PlainText (''hello'' @ nl @ ''world'' @ nl @ ''//SEND'')
   \<and> userMessage PlainText (''hello'' @ nl @ ''world'' @ nl @ ''//SEND'') = ''hello'' @ nl @ ''world''"
  by (simp add: run_defs)

section \<open>The history only grows\<close>

lemma history_onEvent: "prefix (history s) (history (onEvent r timestamp event s))"
proof (cases event)
  case Rename
  then show ?thesis by (simp add: onEvent_def)
next
  case (Change co)
  then show ?thesis
  proof (cases co)
    case None
    with Change show ?thesis by (simp add: onEvent_def)
  next
    case (Some content)
    with Change show ?thesis by (auto simp: onEvent_change resolve_def split: option.splits)
  qed
qed

lemma history_beginWait: "history (beginWait r s) = history s"
  by (simp add: beginWait_def init_def)

lemma history_runStep: "prefix (history s) (history (runStep r x s))"
proof (cases x)
  case (Notify n)
  then show ?thesis by (cases n) simp_all
next
  case (ReadDone origin content timestamp)
  show ?thesis
  proof (cases origin)
    case ThisWait
    with ReadDone history_onEvent [of "s\<lparr>inFlight := inFlight s - 1\<rparr>" r timestamp "Change content"]
    show ?thesis by simp
  next
    case EarlierWait
    with ReadDone history_onEvent [of s r timestamp "Change content"] show ?thesis by simp
  qed
qed

lemma history_runSteps: "prefix (history s) (history (runSteps r steps s))"
proof (induction steps arbitrary: s)
  case Nil
  show ?case by simp
next
  case (Cons x steps)
  have "prefix (history s) (history (runStep r x s))" by (rule history_runStep)
  also have "prefix (history (runStep r x s)) (history (runSteps r steps (runStep r x s)))"
    by (rule Cons.IH)
  finally show ?case by simp
qed

lemma history_awaitInput:
  "awaitInput r steps s = Some (v, s') \<Longrightarrow> prefix (history s) (history s')"
  using history_runSteps [of s r steps]
  by (auto simp: awaitInput_def Let_def split: option.splits)

lemma history_waitForUserInput:
  "waitForUserInput r events s = Some (v, s') \<Longrightarrow> prefix (history s) (history s')"
  using history_awaitInput [of r events "beginWait r s" v s']
  by (simp add: waitForUserInput_def history_beginWait)

lemma history_handleToolCall:
  "handleToolCall P r name args (feed, s) = Some (Inr (v, (feed', s'))) \<Longrightarrow> prefix (history s) (history s')"
  by (cases feed) (auto simp: handleToolCall_def dest: history_waitForUserInput split: if_splits sum.splits)

lemma history_handleMessage:
  "handleMessage P r line (feed, s) = Some (response, (feed', s')) \<Longrightarrow> prefix (history s) (history s')"
  by (auto simp: handleMessage_def tryBlock_def Let_def dest: history_handleToolCall
      split: option.splits sum.splits if_splits)

lemma processLines_done:
  "indexOf buffer (CHR 0x0A) = None \<Longrightarrow> processLines P r buffer (out, w) = Some (buffer, out, w)"
  by (simp add: processLines.simps)

lemma processLines_blank:
  "indexOf buffer (CHR 0x0A) = Some i \<Longrightarrow> trim (take i buffer) = [] \<Longrightarrow>
   processLines P r buffer (out, w) = processLines P r (drop (Suc i) buffer) (out, w)"
  by (simp add: processLines.simps [of P r buffer])

lemma processLines_line:
  "indexOf buffer (CHR 0x0A) = Some i \<Longrightarrow> trim (take i buffer) \<noteq> [] \<Longrightarrow>
   processLines P r buffer (out, w) =
     (case handleMessage P r (trim (take i buffer)) w of
        None \<Rightarrow> None
      | Some (response, w') \<Rightarrow>
          processLines P r (drop (Suc i) buffer) (if response \<noteq> [] then out @ [response] else out, w'))"
  by (simp add: processLines.simps [of P r buffer])

lemma history_processLines:
  "processLines P r buffer (out, (feed, s)) = Some (buffer', out', (feed', s')) \<Longrightarrow>
   prefix (history s) (history s')"
proof (induction P r buffer "(out, (feed, s))" arbitrary: out feed s rule: processLines.induct)
  case (1 P r buffer out feed s)
  show ?case
  proof (cases "indexOf buffer (CHR 0x0A)")
    case None
    with "1.prems" show ?thesis by (simp add: processLines_done)
  next
    case (Some i)
    show ?thesis
    proof (cases "trim (take i buffer) = []")
      case True
      with Some "1.prems" have "processLines P r (drop (Suc i) buffer) (out, (feed, s)) = Some (buffer', out', (feed', s'))"
        by (simp add: processLines_blank)
      with "1.hyps"(2) [OF Some refl refl] True show ?thesis by simp
    next
      case False
      with Some "1.prems" obtain response feed1 s1 where
        hm: "handleMessage P r (trim (take i buffer)) (feed, s) = Some (response, (feed1, s1))"
        and rest: "processLines P r (drop (Suc i) buffer)
           (if response \<noteq> [] then out @ [response] else out, (feed1, s1)) = Some (buffer', out', (feed', s'))"
        by (auto simp: processLines_line split: option.splits)
      from hm have a: "prefix (history s) (history s1)" by (rule history_handleMessage)
      from "1.hyps"(1) [OF Some refl refl False hm] rest
      have "prefix (history s1) (history s')" by simp
      with a show ?thesis by (rule prefix_order.trans)
    qed
  qed
qed

lemma history_readLoop:
  "readLoop P r chunks buffer (out, (feed, s)) = Some (out', (feed', s')) \<Longrightarrow>
   prefix (history s) (history s')"
proof (induction chunks arbitrary: buffer out feed s)
  case Nil
  then show ?case by simp
next
  case (Cons chunk chunks)
  then obtain buffer1 out1 feed1 s1 where
    a: "processLines P r (buffer @ chunk) (out, (feed, s)) = Some (buffer1, out1, (feed1, s1))"
    and b: "readLoop P r chunks buffer1 (out1, (feed1, s1)) = Some (out', (feed', s'))"
    by (auto split: option.splits)
  from a have "prefix (history s) (history s1)" by (rule history_processLines)
  moreover from b have "prefix (history s1) (history s')" by (rule Cons.IH)
  ultimately show ?case by (rule prefix_order.trans)
qed

lemma history_main:
  "main P r chunks (feed, s) = Some (out, (feed', s')) \<Longrightarrow> prefix (history s) (history s')"
  using history_readLoop [of P r chunks "[]" "[]" feed "init s" out feed' s']
  by (simp add: main_def init_def split: if_splits)


lemma join_Cons: "xs \<noteq> [] \<Longrightarrow> join (x # xs) sep = x @ sep @ join xs sep"
  by (cases xs) simp_all

lemma join_member:
  "\<exists>pre. join (a @ x # rest) sep = pre @ x @ (if rest = [] then [] else sep @ join rest sep)"
proof (induction a)
  case Nil
  show ?case by (cases rest) auto
next
  case (Cons a0 a)
  then obtain pre where "join (a @ x # rest) sep = pre @ x @ (if rest = [] then [] else sep @ join rest sep)"
    by blast
  then have "join ((a0 # a) @ x # rest) sep =
      (a0 @ sep @ pre) @ x @ (if rest = [] then [] else sep @ join rest sep)"
    by (simp add: join_Cons)
  then show ?case by blast
qed

lemma join_two_members:
  "\<exists>pre mid post. join (a @ [x] @ b @ [y] @ c) sep = pre @ x @ mid @ y @ post"
proof -
  obtain pre where 1: "join (a @ x # (b @ y # c)) sep = pre @ x @ sep @ join (b @ y # c) sep"
    using join_member [of a x "b @ y # c" sep] by auto
  obtain pre' where 2: "join (b @ y # c) sep = pre' @ y @ (if c = [] then [] else sep @ join c sep)"
    using join_member [of b y c sep] by blast
  have "join (a @ [x] @ b @ [y] @ c) sep =
      pre @ x @ (sep @ pre') @ y @ (if c = [] then [] else sep @ join c sep)"
    using 1 2 by simp
  then show ?thesis by blast
qed

lemma historyText_two_members:
  "\<exists>pre mid post. historyText r (a @ [x] @ b @ [y] @ c) = pre @ x @ mid @ y @ post"
proof (cases r)
  case PlainText
  obtain pre mid post where "join (a @ [x] @ b @ [y] @ c) nl = pre @ x @ mid @ y @ post"
    using join_two_members by blast
  with PlainText have "historyText r (a @ [x] @ b @ [y] @ c) =
      pre @ x @ mid @ y @ (post @ nl @ nl @ separator @ nl @ nl)"
    by simp
  then show ?thesis by blast
next
  case Markdown
  obtain pre mid post where "join (a @ [x] @ b @ [y] @ c) (nl @ nl) = pre @ x @ mid @ y @ post"
    using join_two_members by blast
  with Markdown have "historyText r (a @ [x] @ b @ [y] @ c) =
      (''## Conversation History'' @ nl @ nl @ pre) @ x @ mid @ y @
      (post @ nl @ nl @ ''---'' @ nl @ nl @ instructions)"
    by simp
  then show ?thesis by blast
qed

lemma onEvent_rejects:
  "\<forall>content. read = Some content \<longrightarrow>
      \<not> (hasSendMarker r (trim content) \<and> userMessage r (trim content) \<noteq> []) \<Longrightarrow>
   onEvent r timestamp (Change read) s = s"
  by (cases read) (auto simp: onEvent_change, simp add: onEvent_def)

lemma onEvent_accepts:
  assumes "hasSendMarker r (trim content)" and "userMessage r (trim content) = message"
    and "message \<noteq> []"
  shows "onEvent r timestamp (Change (Some content)) s =
     s\<lparr>watching := False,
       closeCalls := closeCalls s + 1,
       history := history s @ [''['' @ timestamp @ ''] USER: '' @ message],
       promise := (case promise s of
                     None \<Rightarrow> Some (Obj [(''status'', Str ''success''), (''user_message'', Str message)])
                   | Some v \<Rightarrow> Some v)\<rparr>"
  using assms by (simp add: onEvent_change resolve_def historyEntry_def split: option.splits)

lemma onEvent_outcome:
  "onEvent r timestamp event s = s \<or>
   (\<exists>message. onEvent r timestamp event s =
      s\<lparr>watching := False,
        closeCalls := closeCalls s + 1,
        history := history s @ [''['' @ timestamp @ ''] USER: '' @ message],
        promise := (case promise s of
                      None \<Rightarrow> Some (Obj [(''status'', Str ''success''), (''user_message'', Str message)])
                    | Some v \<Rightarrow> Some v)\<rparr>)"
proof (cases event)
  case Rename
  then show ?thesis by (simp add: onEvent_def)
next
  case (Change read)
  show ?thesis
  proof (cases "\<forall>content. read = Some content \<longrightarrow>
      \<not> (hasSendMarker r (trim content) \<and> userMessage r (trim content) \<noteq> [])")
    case True
    then have "onEvent r timestamp (Change read) s = s" by (rule onEvent_rejects)
    with Change show ?thesis by simp
  next
    case False
    then obtain content where "read = Some content" "hasSendMarker r (trim content)"
      "userMessage r (trim content) \<noteq> []" by auto
    with Change onEvent_accepts [of r content "userMessage r (trim content)" timestamp s]
    show ?thesis by auto
  qed
qed

lemma promise_runStep_kept: "promise s = Some v \<Longrightarrow> promise (runStep r x s) = Some v"
proof (cases x)
  case (Notify n)
  assume "promise s = Some v"
  with Notify show ?thesis by (cases n) simp_all
next
  case (ReadDone origin read timestamp)
  assume p: "promise s = Some v"
  show ?thesis
  proof (cases origin)
    case ThisWait
    with ReadDone p onEvent_outcome [of r timestamp "Change read" "s\<lparr>inFlight := inFlight s - 1\<rparr>"]
    show ?thesis by auto
  next
    case EarlierWait
    with ReadDone p show ?thesis by simp
  qed
qed

lemma promise_runSteps_kept: "promise s = Some v \<Longrightarrow> promise (runSteps r steps s) = Some v"
  by (induction steps arbitrary: s) (simp_all add: promise_runStep_kept)

lemma runStep_first_resolution:
  assumes "promise s = None"
    and "promise (runStep r x s) = Some (Obj [(''status'', Str ''success''), (''user_message'', Str m)])"
  shows "\<exists>t. history (runStep r x s) = history s @ [''['' @ t @ ''] USER: '' @ m]"
proof (cases x)
  case (Notify n)
  with assms show ?thesis by (cases n) (auto split: if_splits)
next
  case (ReadDone origin read timestamp)
  show ?thesis
  proof (cases origin)
    case EarlierWait
    with ReadDone assms show ?thesis by simp
  next
    case ThisWait
    let ?s = "s\<lparr>inFlight := inFlight s - 1\<rparr>"
    from ThisWait ReadDone assms have r: "runStep r x s = onEvent r timestamp (Change read) ?s"
      by (auto split: if_splits)
    from onEvent_outcome [of r timestamp "Change read" ?s] show ?thesis
    proof
      assume "onEvent r timestamp (Change read) ?s = ?s"
      with r assms show ?thesis by simp
    next
      assume "\<exists>message. onEvent r timestamp (Change read) ?s =
        ?s\<lparr>watching := False,
          closeCalls := closeCalls ?s + 1,
          history := history ?s @ [''['' @ timestamp @ ''] USER: '' @ message],
          promise := (case promise ?s of
                        None \<Rightarrow> Some (Obj [(''status'', Str ''success''), (''user_message'', Str message)])
                      | Some v \<Rightarrow> Some v)\<rparr>"
      then obtain message where e: "onEvent r timestamp (Change read) ?s =
        ?s\<lparr>watching := False,
          closeCalls := closeCalls ?s + 1,
          history := history ?s @ [''['' @ timestamp @ ''] USER: '' @ message],
          promise := (case promise ?s of
                        None \<Rightarrow> Some (Obj [(''status'', Str ''success''), (''user_message'', Str message)])
                      | Some v \<Rightarrow> Some v)\<rparr>" by blast
      with r assms have "message = m" by simp
      with e r have "history (runStep r x s) = history s @ [''['' @ timestamp @ ''] USER: '' @ m]" by simp
      then show ?thesis by blast
    qed
  qed
qed

lemma runSteps_resolution:
  assumes "promise s = None"
    and "promise (runSteps r steps s) = Some (Obj [(''status'', Str ''success''), (''user_message'', Str m)])"
  shows "\<exists>t h1 h2. history (runSteps r steps s) = history s @ h1 @ [''['' @ t @ ''] USER: '' @ m] @ h2"
  using assms
proof (induction steps arbitrary: s)
  case Nil
  then show ?case by simp
next
  case (Cons x steps)
  let ?s1 = "runStep r x s"
  obtain e where e: "history ?s1 = history s @ e"
    using history_runStep [of s r x] by (auto simp: prefix_def)
  show ?case
  proof (cases "promise ?s1")
    case None
    from Cons.IH [OF None] Cons.prems(2)
    obtain t h1 h2 where "history (runSteps r steps ?s1) = history ?s1 @ h1 @ [''['' @ t @ ''] USER: '' @ m] @ h2"
      by auto
    with e have "history (runSteps r (x # steps) s) = history s @ (e @ h1) @ [''['' @ t @ ''] USER: '' @ m] @ h2"
      by simp
    then show ?thesis by blast
  next
    case (Some v)
    then have "promise (runSteps r steps ?s1) = Some v" by (rule promise_runSteps_kept)
    with Cons.prems(2) have v: "v = Obj [(''status'', Str ''success''), (''user_message'', Str m)]" by simp
    with Some Cons.prems(1) obtain t where t: "history ?s1 = history s @ [''['' @ t @ ''] USER: '' @ m]"
      using runStep_first_resolution by blast
    obtain h2 where "history (runSteps r steps ?s1) = history ?s1 @ h2"
      using history_runSteps [of ?s1 r steps] by (auto simp: prefix_def)
    with t have "history (runSteps r (x # steps) s) = history s @ [] @ [''['' @ t @ ''] USER: '' @ m] @ h2"
      by simp
    then show ?thesis by blast
  qed
qed

lemma waitForUserInput_resolution:
  assumes "waitForUserInput r steps s = Some (Obj [(''status'', Str ''success''), (''user_message'', Str m)], s')"
  shows "\<exists>t h1 h2. history s' = history s @ h1 @ [''['' @ t @ ''] USER: '' @ m] @ h2"
proof -
  have p: "promise (beginWait r s) = None" by (simp add: beginWait_def)
  from assms have s': "s' = runSteps r steps (beginWait r s)"
    and "promise (runSteps r steps (beginWait r s)) = Some (Obj [(''status'', Str ''success''), (''user_message'', Str m)])"
    by (auto simp: waitForUserInput_def awaitInput_def Let_def split: option.splits)
  with runSteps_resolution [OF p] show ?thesis by (simp add: history_beginWait)
qed

section \<open>Steps that resolve nothing\<close>






section \<open>The Wait Engine: claims\<close>

lemma markdown_fenced_hello_world:
  "hasSendMarker Markdown
     (''## Your Message'' @ nl @ nl @ ''Type your message below. End with `//SEND` to submit.'' @ nl @ nl @
      ''```'' @ nl @ ''hello'' @ nl @ ''world'' @ nl @ ''//SEND'' @ nl @ ''```'')
   \<and> userMessage Markdown
     (''## Your Message'' @ nl @ nl @ ''Type your message below. End with `//SEND` to submit.'' @ nl @ nl @
      ''```'' @ nl @ ''hello'' @ nl @ ''world'' @ nl @ ''//SEND'' @ nl @ ''```'') = ''hello'' @ nl @ ''world''"
  by (simp add: run_defs)

text \<open>
  Claim C1. For a save whose trimmed content is \<open>hello\<newline>world\<newline>//SEND\<close> the
  extraction is to give \<open>hello\<newline>world\<close>. src/index.ts does
  (\<open>plainText_hello_world\<close>, and \<open>plainText_extracts\<close> for every content that ends
  with the marker). The Markdown revision does so only when the content comes inside the
  fence (\<open>markdown_fenced_hello_world\<close>). For the content as it stands its extraction
  returns the content with the marker still in it, and its callback ignores the save.
\<close>

theorem C1_markdown_bare_marker_not_extracted:
  "userMessage Markdown (''hello'' @ nl @ ''world'' @ nl @ ''//SEND'') = ''hello'' @ nl @ ''world'' @ nl @ ''//SEND''
   \<and> onEvent Markdown timestamp (Change (Some (''hello'' @ nl @ ''world'' @ nl @ ''//SEND''))) s = s"
  by (simp add: run_defs onEvent_def)

text \<open>
  Claim C2. The completion test is to accept a trimmed content that ends with the marker,
  in any letter case. src/index.ts does; the Markdown revision rejects every such
  content, because its expression requires backticks after the marker.
\<close>

theorem C2_markdown_requires_backticks:
  assumes "toUpperCase marker = ''//SEND''"
  shows "\<not> hasSendMarker Markdown (body @ marker) \<and> hasSendMarker PlainText (body @ marker)"
  using markdown_rejects_bare_marker [OF assms, of body] assms plainText_marker_iff by blast

theorem C2_witness:
  "toUpperCase ''//send'' = ''//SEND''
   \<and> \<not> hasSendMarker Markdown (''ready'' @ nl @ ''//send'')
   \<and> hasSendMarker PlainText (''ready'' @ nl @ ''//send'')"
proof -
  have h: "toUpperCase ''//send'' = ''//SEND''" by (simp add: toUpperCase_def toUpperChar_def)
  from C2_markdown_requires_backticks [OF h, of "''ready'' @ nl"] h show ?thesis by simp
qed





text \<open>
  Claim C4. A change notification whose trimmed content does not pass the completion
  test (empty content included) is handled without effect: the promise is not resolved,
  the history is not touched and the watcher stays open. So any number of such saves,
  each notified and read in turn, leaves the whole state of a wait as it was.
\<close>

theorem C4_rejected_saves_change_nothing:
  assumes "\<forall>(timestamp, content) \<in> set saves. \<not> hasSendMarker r (trim content)"
  shows "foldl (\<lambda>s (timestamp, content). onEvent r timestamp (Change (Some content)) s) s saves = s
       \<and> (watching s \<longrightarrow>
            runSteps r (concat (map (\<lambda>(timestamp, content).
                          [Notify ChangeEvent, ReadDone ThisWait (Some content) timestamp]) saves)) s = s)"
  using assms
proof (induction saves)
  case Nil
  show ?case by simp
next
  case (Cons save saves)
  obtain timestamp content where sv: "save = (timestamp, content)" by (cases save)
  with Cons.prems have "\<not> hasSendMarker r (trim content)" by simp
  then have run: "onEvent r timestamp (Change (Some content)) s' = s'" for s'
    by (simp add: onEvent_change)
  have "runSteps r [Notify ChangeEvent, ReadDone ThisWait (Some content) timestamp] s = s" if "watching s"
    using that by (simp add: run)
  with Cons sv run show ?case by simp
qed

theorem C4_witness:
  "foldl (\<lambda>s (timestamp, content). onEvent PlainText timestamp (Change (Some content)) s)
     (beginWait PlainText newServer)
     [(''10:00:01'', historyText PlainText [] @ ''hello, still typing''),
      (''10:00:02'', []),
      (''10:00:03'', historyText PlainText [] @ ''hello'' @ nl @ ''//SEN'')]
     = beginWait PlainText newServer
   \<and> runSteps PlainText
       (concat (map (\<lambda>(timestamp, content). [Notify ChangeEvent, ReadDone ThisWait (Some content) timestamp])
          [(''10:00:01'', historyText PlainText [] @ ''hello, still typing''),
           (''10:00:02'', []),
           (''10:00:03'', historyText PlainText [] @ ''hello'' @ nl @ ''//SEN'')]))
       (beginWait PlainText newServer)
     = beginWait PlainText newServer"
proof -
  have h: "\<forall>(timestamp, content) \<in> set [(''10:00:01'', historyText PlainText [] @ ''hello, still typing''),
      (''10:00:02'', []),
      (''10:00:03'', historyText PlainText [] @ ''hello'' @ nl @ ''//SEN'')].
       \<not> hasSendMarker PlainText (trim content)"
    by (simp add: run_defs)
  have w: "watching (beginWait PlainText newServer)" by (simp add: beginWait_def)
  from C4_rejected_saves_change_nothing [OF h, of "beginWait PlainText newServer"] w
  show ?thesis by blast
qed

text \<open>
  Claim C5. A change notification whose content is white space around a bare marker
  \<open>//SEND\<close> (in any letter case) does not resolve the wait and adds nothing to the
  history: the callback leaves the state unchanged and the wait goes on with the steps
  that follow.
\<close>

theorem C5_bare_marker:
  assumes "\<forall>c \<in> set before. isSpace c" and "\<forall>c \<in> set after. isSpace c"
    and "toUpperCase marker = ''//SEND''"
  shows "onEvent r timestamp (Change (Some (before @ marker @ after))) s = s
       \<and> awaitInput r (ReadDone ThisWait (Some (before @ marker @ after)) timestamp # steps) s =
           awaitInput r steps (s\<lparr>inFlight := inFlight s - 1\<rparr>)
       \<and> (watching s \<longrightarrow>
            awaitInput r (Notify ChangeEvent # ReadDone ThisWait (Some (before @ marker @ after)) timestamp # steps) s =
              awaitInput r steps s)"
proof -
  have "trim (before @ marker @ after) = marker"
    using assms(1,2,3) by (simp add: trim_spaces_around trim_marker)
  then have run: "onEvent r timestamp (Change (Some (before @ marker @ after))) s' = s'" for s'
    using bare_marker_rejected [OF assms(3), of r] by (auto simp: onEvent_change)
  have "runStep r (ReadDone ThisWait (Some (before @ marker @ after)) timestamp) s = s\<lparr>inFlight := inFlight s - 1\<rparr>"
    by (simp add: run)
  moreover have "runSteps r [Notify ChangeEvent, ReadDone ThisWait (Some (before @ marker @ after)) timestamp] s = s"
    if "watching s"
    using that by (simp add: run)
  ultimately show ?thesis using run [of s] by (simp add: awaitInput_def)
qed

theorem C5_witness:
  "toUpperCase ''//Send'' = ''//SEND''
   \<and> onEvent PlainText ''10:00:01'' (Change (Some (('' '' @ nl) @ ''//Send'' @ (nl @ nl)))) (beginWait PlainText newServer)
       = beginWait PlainText newServer
   \<and> awaitInput PlainText
       [Notify ChangeEvent, ReadDone ThisWait (Some (('' '' @ nl) @ ''//Send'' @ (nl @ nl))) ''10:00:01'']
       (beginWait PlainText newServer) = None"
proof -
  have h1: "\<forall>c \<in> set ('' '' @ nl). isSpace c" by (simp add: isSpace_def)
  have h2: "\<forall>c \<in> set (nl @ nl). isSpace c" by (simp add: isSpace_def)
  have h3: "toUpperCase ''//Send'' = ''//SEND''" by (simp add: toUpperCase_def toUpperChar_def)
  have w: "watching (beginWait PlainText newServer)" by (simp add: beginWait_def)
  have e: "awaitInput PlainText [] (beginWait PlainText newServer) = None"
    by (simp add: awaitInput_def beginWait_def)
  from C5_bare_marker [OF h1 h2 h3, of PlainText "''10:00:01''" "beginWait PlainText newServer" "[]"] h3 w e
  show ?thesis by simp
qed

text \<open>
  Claim C6. The history is append-only: a callback run, a step of a wait, the start of a
  wait and a whole request each leave a history that extends the one before, so no entry
  is removed or changed and the order of submission is kept. After two waits that
  returned the messages \<open>a\<close> and then \<open>b\<close>, the history holds the entry
  \<open>[time] USER: a\<close> before the entry \<open>[time] USER: b\<close>, and the file written at the
  start of the next wait contains both texts in that order.
\<close>

theorem C6_history_append_only:
  assumes "waitForUserInput r steps1 s0 = Some (Obj [(''status'', Str ''success''), (''user_message'', Str ''a'')], s1)"
    and "waitForUserInput r steps2 s1 = Some (Obj [(''status'', Str ''success''), (''user_message'', Str ''b'')], s2)"
  shows "(\<forall>r' t e s. prefix (history s) (history (onEvent r' t e s)))
       \<and> (\<forall>r' x s. prefix (history s) (history (runStep r' x s)))
       \<and> (\<forall>r' s. history (beginWait r' s) = history s)
       \<and> (\<forall>P r' line feed s response feed' s'.
            handleMessage P r' line (feed, s) = Some (response, (feed', s')) \<longrightarrow>
            prefix (history s) (history s'))
       \<and> (\<exists>ta tb h1 h2 h3.
            history s2 = history s0 @ h1 @ [''['' @ ta @ ''] USER: a''] @ h2 @ [''['' @ tb @ ''] USER: b''] @ h3
            \<and> (\<exists>pre mid post. fileBody (beginWait r s2) =
                  pre @ (''['' @ ta @ ''] USER: a'') @ mid @ (''['' @ tb @ ''] USER: b'') @ post))"
proof -
  from assms(1) obtain ta h1 h2 where a: "history s1 = history s0 @ h1 @ [''['' @ ta @ ''] USER: '' @ ''a''] @ h2"
    using waitForUserInput_resolution by blast
  from assms(2) obtain tb h3 h4 where b: "history s2 = history s1 @ h3 @ [''['' @ tb @ ''] USER: '' @ ''b''] @ h4"
    using waitForUserInput_resolution by blast
  from a b have h: "history s2 =
      (history s0 @ h1) @ [''['' @ ta @ ''] USER: a''] @ (h2 @ h3) @ [''['' @ tb @ ''] USER: b''] @ h4"
    by simp
  have "fileBody (beginWait r s2) = historyText r (history s2)" by (simp add: beginWait_def)
  with historyText_two_members [of r "history s0 @ h1" "''['' @ ta @ ''] USER: a''" "h2 @ h3" "''['' @ tb @ ''] USER: b''" h4]
  have "\<exists>pre mid post. fileBody (beginWait r s2) =
          pre @ (''['' @ ta @ ''] USER: a'') @ mid @ (''['' @ tb @ ''] USER: b'') @ post"
    by (simp only: h)
  moreover from h have "history s2 = history s0 @ h1 @ [''['' @ ta @ ''] USER: a''] @ (h2 @ h3) @ [''['' @ tb @ ''] USER: b''] @ h4"
    by simp
  ultimately have scenario: "\<exists>ta tb h1 h2 h3.
            history s2 = history s0 @ h1 @ [''['' @ ta @ ''] USER: a''] @ h2 @ [''['' @ tb @ ''] USER: b''] @ h3
            \<and> (\<exists>pre mid post. fileBody (beginWait r s2) =
                  pre @ (''['' @ ta @ ''] USER: a'') @ mid @ (''['' @ tb @ ''] USER: b'') @ post)" by blast
  show ?thesis
    using history_onEvent history_runStep history_beginWait history_handleMessage scenario by blast
qed

theorem C6_witness:
  "\<exists>s1 s2.
     waitForUserInput PlainText
       [Notify ChangeEvent,
        ReadDone ThisWait (Some (historyText PlainText [] @ ''a'' @ nl @ ''//SEND'' @ nl)) ''10:00:01''] newServer =
       Some (Obj [(''status'', Str ''success''), (''user_message'', Str ''a'')], s1)
   \<and> waitForUserInput PlainText
       [Notify ChangeEvent,
        ReadDone ThisWait (Some (historyText PlainText [''[10:00:01] USER: a''] @ ''b'' @ nl @ ''//send'')) ''10:00:02''] s1 =
       Some (Obj [(''status'', Str ''success''), (''user_message'', Str ''b'')], s2)
   \<and> history s2 = [''[10:00:01] USER: a'', ''[10:00:02] USER: b'']
   \<and> fileBody (beginWait PlainText s2) =
       ''[10:00:01] USER: a'' @ nl @ ''[10:00:02] USER: b'' @ nl @ nl @
       ''--- Type your message below (end with //SEND to submit) ---'' @ nl @ nl
   \<and> (\<exists>ta tb h1 h2 h3.
         history s2 = history newServer @ h1 @ [''['' @ ta @ ''] USER: a''] @ h2 @ [''['' @ tb @ ''] USER: b''] @ h3
         \<and> (\<exists>pre mid post. fileBody (beginWait PlainText s2) =
               pre @ (''['' @ ta @ ''] USER: a'') @ mid @ (''['' @ tb @ ''] USER: b'') @ post))"
proof -
  define s1 where "s1 = (beginWait PlainText newServer)\<lparr>watching := False, closeCalls := 1,
      history := [''[10:00:01] USER: a''],
      promise := Some (Obj [(''status'', Str ''success''), (''user_message'', Str ''a'')])\<rparr>"
  define s2 where "s2 = (beginWait PlainText s1)\<lparr>watching := False, closeCalls := 1,
      history := [''[10:00:01] USER: a'', ''[10:00:02] USER: b''],
      promise := Some (Obj [(''status'', Str ''success''), (''user_message'', Str ''b'')])\<rparr>"
  have h1: "waitForUserInput PlainText
       [Notify ChangeEvent,
        ReadDone ThisWait (Some (historyText PlainText [] @ ''a'' @ nl @ ''//SEND'' @ nl)) ''10:00:01''] newServer =
       Some (Obj [(''status'', Str ''success''), (''user_message'', Str ''a'')], s1)"
    by (simp add: s1_def run_defs onEvent_def)
  have h2: "waitForUserInput PlainText
       [Notify ChangeEvent,
        ReadDone ThisWait (Some (historyText PlainText [''[10:00:01] USER: a''] @ ''b'' @ nl @ ''//send'')) ''10:00:02''] s1 =
       Some (Obj [(''status'', Str ''success''), (''user_message'', Str ''b'')], s2)"
    by (simp add: s2_def s1_def run_defs onEvent_def)
  have h3: "history s2 = [''[10:00:01] USER: a'', ''[10:00:02] USER: b'']" by (simp add: s2_def)
  have h4: "fileBody (beginWait PlainText s2) =
       ''[10:00:01] USER: a'' @ nl @ ''[10:00:02] USER: b'' @ nl @ nl @
       ''--- Type your message below (end with //SEND to submit) ---'' @ nl @ nl"
    by (simp add: s2_def beginWait_def separator_def)
  note sc = C6_history_append_only [OF h1 h2, THEN conjunct2, THEN conjunct2, THEN conjunct2, THEN conjunct2]
  show ?thesis
    by (rule exI [of _ s1], rule exI [of _ s2]) (intro conjI h1 h2 h3 h4 sc)
qed

section \<open>The Protocol Dispatcher: claims\<close>

lemmas sample_defs =
  samplePlatform_def sampleRequests_def unknownToolLine_def unknownMethodLine_def
  noParamsLine_def numberParamsLine_def quote_def

lemma get_Str_not_nullish: "get v k = Str t \<Longrightarrow> \<not> nullish v"
  by (cases v) simp_all


text \<open>
  Claim C7. A \<open>tools/call\<close> request that names a tool other than
  \<open>wait_for_user_input\<close> and \<open>get_input_file\<close> is answered with a JSON-RPC result,
  not an error: its one text item is the serialised object with the status \<open>error\<close>
  and the message \<open>Unknown tool: \<close> followed by the name. The request's id is echoed
  and the state is untouched. (\<open>text\<close> is the name as a template literal renders it;
  for a string it is the string itself.)
\<close>

theorem C7_unknown_tool:
  assumes "JSON_parse P line = Inr request"
    and "get request ''method'' = Str ''tools/call''"
    and "\<not> nullish (get request ''params'')"
    and "get (get request ''params'') ''name'' = name"
    and "name \<noteq> Str ''wait_for_user_input''"
    and "name \<noteq> Str ''get_input_file''"
    and "toStr name = Inr text"
  shows "handleMessage P r line w =
     Some (JSON_stringify P (Obj
             [(''jsonrpc'', Str ''2.0''),
              (''id'', get request ''id''),
              (''result'', Obj
                 [(''content'', Arr
                    [Obj [(''type'', Str ''text''),
                          (''text'', Str (JSON_stringify_indent P (Obj
                             [(''status'', Str ''error''),
                              (''message'', Str (''Unknown tool: '' @ text))])))]])])]), w)"
proof -
  from assms(2) have "\<not> nullish request" by (rule get_Str_not_nullish)
  moreover have "handleToolCall P r name
      (if truthy (get (get request ''params'') ''arguments'') then get (get request ''params'') ''arguments'' else Obj []) w =
      Some (Inr (Obj [(''status'', Str ''error''), (''message'', Str (''Unknown tool: '' @ text))], w))"
    using assms(5,6,7) by (simp add: handleToolCall_def)
  ultimately show ?thesis
    using assms(1,2,3,4) by (simp add: handleMessage_def tryBlock_def Let_def)
qed

theorem C7_witness:
  "handleMessage samplePlatform Markdown unknownToolLine ([], newServer) =
     Some (JSON_stringify samplePlatform (Obj
             [(''jsonrpc'', Str ''2.0''),
              (''id'', Num ''7''),
              (''result'', Obj
                 [(''content'', Arr
                    [Obj [(''type'', Str ''text''),
                          (''text'', Str (JSON_stringify_indent samplePlatform (Obj
                             [(''status'', Str ''error''),
                              (''message'', Str ''Unknown tool: frobnicate'')])))]])])]), ([], newServer))"
proof -
  let ?request = "Obj [(''jsonrpc'', Str ''2.0''), (''id'', Num ''7''), (''method'', Str ''tools/call''),
            (''params'', Obj [(''name'', Str ''frobnicate'')])]"
  have h1: "JSON_parse samplePlatform unknownToolLine = Inr ?request" by (simp add: sample_defs)
  have h2: "get ?request ''method'' = Str ''tools/call''" by simp
  have h3: "\<not> nullish (get ?request ''params'')" by simp
  have h4: "get (get ?request ''params'') ''name'' = Str ''frobnicate''" by simp
  have h5: "Str ''frobnicate'' \<noteq> Str ''wait_for_user_input''" by simp
  have h6: "Str ''frobnicate'' \<noteq> Str ''get_input_file''" by simp
  have h7: "toStr (Str ''frobnicate'') = Inr ''frobnicate''" by simp
  from C7_unknown_tool [OF h1 h2 h3 h4 h5 h6 h7, of Markdown "([], newServer)"]
  show ?thesis by simp
qed



text \<open>
  Claim C9. A request (any parsed value but \<open>null\<close>) whose method is none of
  \<open>initialize\<close>, \<open>tools/list\<close>, \<open>tools/call\<close> and \<open>notifications/initialized\<close>
  is answered with the JSON-RPC error of code -32601, \<open>Method not found\<close>, carrying
  the id of the request as it was read.
\<close>

theorem C9_method_not_found:
  assumes "JSON_parse P line = Inr request"
    and "\<not> nullish request"
    and "get request ''method'' \<notin>
           {Str ''initialize'', Str ''tools/list'', Str ''tools/call'', Str ''notifications/initialized''}"
  shows "handleMessage P r line w =
     Some (JSON_stringify P (Obj
             [(''jsonrpc'', Str ''2.0''),
              (''id'', get request ''id''),
              (''error'', Obj [(''code'', Num ''-32601''),
                               (''message'', Str ''Method not found'')])]), w)"
  using assms by (simp add: handleMessage_def tryBlock_def)

theorem C9_witness:
  "handleMessage samplePlatform PlainText unknownMethodLine ([], newServer) =
     Some (JSON_stringify samplePlatform (Obj
             [(''jsonrpc'', Str ''2.0''),
              (''id'', Num ''8''),
              (''error'', Obj [(''code'', Num ''-32601''),
                               (''message'', Str ''Method not found'')])]), ([], newServer))"
proof -
  let ?request = "Obj [(''jsonrpc'', Str ''2.0''), (''id'', Num ''8''), (''method'', Str ''resources/list'')]"
  have h1: "JSON_parse samplePlatform unknownMethodLine = Inr ?request" by (simp add: sample_defs)
  have h2: "\<not> nullish ?request" by simp
  have h3: "get ?request ''method'' \<notin>
           {Str ''initialize'', Str ''tools/list'', Str ''tools/call'', Str ''notifications/initialized''}"
    by simp
  from C9_method_not_found [OF h1 h2 h3, of PlainText "([], newServer)"] show ?thesis by simp
qed

lemma get_non_object_name:
  "\<not> nullish v \<Longrightarrow> \<forall>kvs. v \<noteq> Obj kvs \<Longrightarrow> get v k = Undefined"
  by (cases v) simp_all

text \<open>
  Claim C10, as amended. A \<open>tools/call\<close> request whose \<open>params\<close> is absent or
  \<open>null\<close> makes the read of \<open>params.name\<close> throw; the \<open>catch\<close> answers with the
  error of code -32700 and the id \<open>null\<close>, although the line parsed. A \<open>params\<close>
  that is a number, a string, a boolean or an array does not throw: its \<open>name\<close> is
  \<open>undefined\<close>, and the answer is the result carrying the tool-level error
  \<open>Unknown tool: undefined\<close> with the id of the request.
\<close>

theorem C10_call_without_params:
  assumes "JSON_parse P line = Inr request"
    and "get request ''method'' = Str ''tools/call''"
  shows "(nullish (get request ''params'') \<longrightarrow>
           handleMessage P r line w =
             Some (JSON_stringify P (Obj
                     [(''jsonrpc'', Str ''2.0''),
                      (''id'', Null),
                      (''error'', Obj [(''code'', Num ''-32700''),
                                       (''message'', Str (''Parse error: '' @ errorText P (TypeError ''name'')))])]), w))
       \<and> (\<not> nullish (get request ''params'') \<and> (\<forall>kvs. get request ''params'' \<noteq> Obj kvs) \<longrightarrow>
           handleMessage P r line w =
             Some (JSON_stringify P (Obj
                     [(''jsonrpc'', Str ''2.0''),
                      (''id'', get request ''id''),
                      (''result'', Obj
                         [(''content'', Arr
                            [Obj [(''type'', Str ''text''),
                                  (''text'', Str (JSON_stringify_indent P (Obj
                                     [(''status'', Str ''error''),
                                      (''message'', Str ''Unknown tool: undefined'')])))]])])]), w))"
proof -
  from assms(2) have nn: "\<not> nullish request" by (rule get_Str_not_nullish)
  have a: "handleMessage P r line w =
             Some (JSON_stringify P (Obj
                     [(''jsonrpc'', Str ''2.0''),
                      (''id'', Null),
                      (''error'', Obj [(''code'', Num ''-32700''),
                                       (''message'', Str (''Parse error: '' @ errorText P (TypeError ''name'')))])]), w)"
    if "nullish (get request ''params'')"
    using assms nn that by (simp add: handleMessage_def tryBlock_def parseError_def)
  have b: "handleMessage P r line w =
             Some (JSON_stringify P (Obj
                     [(''jsonrpc'', Str ''2.0''),
                      (''id'', get request ''id''),
                      (''result'', Obj
                         [(''content'', Arr
                            [Obj [(''type'', Str ''text''),
                                  (''text'', Str (JSON_stringify_indent P (Obj
                                     [(''status'', Str ''error''),
                                      (''message'', Str ''Unknown tool: undefined'')])))]])])]), w)"
    if p: "\<not> nullish (get request ''params'')" and q: "\<forall>kvs. get request ''params'' \<noteq> Obj kvs"
  proof -
    have n: "get (get request ''params'') ''name'' = Undefined"
      using p q by (rule get_non_object_name)
    have "handleToolCall P r Undefined
        (if truthy (get (get request ''params'') ''arguments'') then get (get request ''params'') ''arguments'' else Obj []) w =
        Some (Inr (Obj [(''status'', Str ''error''), (''message'', Str ''Unknown tool: undefined'')], w))"
      by (simp add: handleToolCall_def)
    then show ?thesis
      using assms nn p n by (simp add: handleMessage_def tryBlock_def Let_def)
  qed
  from a b show ?thesis by blast
qed

theorem C10_witness:
  "handleMessage samplePlatform PlainText noParamsLine ([], newServer) =
     Some (JSON_stringify samplePlatform (Obj
             [(''jsonrpc'', Str ''2.0''),
              (''id'', Null),
              (''error'', Obj [(''code'', Num ''-32700''),
                               (''message'', Str (''Parse error: '' @ errorText samplePlatform (TypeError ''name'')))])]),
           ([], newServer))
   \<and> handleMessage samplePlatform PlainText numberParamsLine ([], newServer) =
     Some (JSON_stringify samplePlatform (Obj
             [(''jsonrpc'', Str ''2.0''),
              (''id'', Num ''10''),
              (''result'', Obj
                 [(''content'', Arr
                    [Obj [(''type'', Str ''text''),
                          (''text'', Str (JSON_stringify_indent samplePlatform (Obj
                             [(''status'', Str ''error''),
                              (''message'', Str ''Unknown tool: undefined'')])))]])])]),
           ([], newServer))"
proof -
  let ?absent = "Obj [(''jsonrpc'', Str ''2.0''), (''id'', Num ''9''), (''method'', Str ''tools/call'')]"
  let ?number = "Obj [(''jsonrpc'', Str ''2.0''), (''id'', Num ''10''), (''method'', Str ''tools/call''),
            (''params'', Num ''5'')]"
  have a1: "JSON_parse samplePlatform noParamsLine = Inr ?absent" by (simp add: sample_defs)
  have a2: "get ?absent ''method'' = Str ''tools/call''" by simp
  have a3: "nullish (get ?absent ''params'')" by simp
  have b1: "JSON_parse samplePlatform numberParamsLine = Inr ?number" by (simp add: sample_defs)
  have b2: "get ?number ''method'' = Str ''tools/call''" by simp
  have b3: "\<not> nullish (get ?number ''params'') \<and> (\<forall>kvs. get ?number ''params'' \<noteq> Obj kvs)" by simp
  from C10_call_without_params [OF a1 a2, of PlainText "([], newServer)", THEN conjunct1, rule_format, OF a3]
    C10_call_without_params [OF b1 b2, of PlainText "([], newServer)", THEN conjunct2, rule_format, OF b3]
  show ?thesis by simp
qed

theorem C10_counterexample:
  "handleMessage samplePlatform PlainText numberParamsLine ([], newServer) =
     Some (JSON_stringify samplePlatform (Obj
             [(''jsonrpc'', Str ''2.0''),
              (''id'', Num ''10''),
              (''result'', Obj
                 [(''content'', Arr
                    [Obj [(''type'', Str ''text''),
                          (''text'', Str (JSON_stringify_indent samplePlatform (Obj
                             [(''status'', Str ''error''),
                              (''message'', Str ''Unknown tool: undefined'')])))]])])]),
           ([], newServer))
   \<and> handleMessage samplePlatform PlainText numberParamsLine ([], newServer) \<noteq>
     Some (JSON_stringify samplePlatform (Obj
             [(''jsonrpc'', Str ''2.0''),
              (''id'', Null),
              (''error'', Obj [(''code'', Num ''-32700''),
                               (''message'', Str (''Parse error: '' @ errorText samplePlatform (TypeError ''name'')))])]),
           ([], newServer))"
  by (simp add: handleMessage_def tryBlock_def handleToolCall_def sample_defs)

end
